theory Spec2Isabelle
  imports Main
begin

section \<open>The fake back end: data of myEndPoints.ts\<close>

text \<open>
  \<^verbatim>\<open>interface CodeReviewer { name: string; id: number; }\<close> and
  \<^verbatim>\<open>interface CodeReviewComment { id: number, text: string, reviewerId: number }\<close>.
  The ids are only ever compared with \<^verbatim>\<open>===\<close>, never computed with, so a JavaScript
  number is modelled as an \<open>int\<close>.
\<close>

record CodeReviewer =
  name :: string
  reviewer_id :: int

record CodeReviewComment =
  comment_id :: int
  reviewerId :: int
  comment_text :: string

definition BE_REVIEWERS :: "CodeReviewer list" where
  "BE_REVIEWERS =
    [\<lparr>name = ''Marioli'', reviewer_id = 3\<rparr>,
     \<lparr>name = ''Carlos'', reviewer_id = 5\<rparr>,
     \<lparr>name = ''Lucia'', reviewer_id = 7\<rparr>]"

definition BE_COMMENTS :: "CodeReviewComment list" where
  "BE_COMMENTS =
    [\<lparr>comment_id = 0, reviewerId = 3,
      comment_text = ''I do not like this true here, I will create a constant with a meaning name''\<rparr>,
     \<lparr>comment_id = 1, reviewerId = 3,
      comment_text = ''From my point of view make the code less readable''\<rparr>,
     \<lparr>comment_id = 2, reviewerId = 3, comment_text = ''What does it do?''\<rparr>,
     \<lparr>comment_id = 3, reviewerId = 5, comment_text = ''Please, refactor to functional component''\<rparr>,
     \<lparr>comment_id = 4, reviewerId = 5, comment_text = ''The trees do not let you see the forest''\<rparr>,
     \<lparr>comment_id = 5, reviewerId = 7, comment_text = ''No comments''\<rparr>]"

text \<open>The array literal inside \<^verbatim>\<open>fetchUsersResponseToReviewer\<close>.\<close>

definition BE_RESPONSES :: "CodeReviewComment list" where
  "BE_RESPONSES =
    [\<lparr>comment_id = 0, reviewerId = 3, comment_text = ''WAT''\<rparr>,
     \<lparr>comment_id = 0, reviewerId = 5, comment_text = ''I don't like trees''\<rparr>,
     \<lparr>comment_id = 0, reviewerId = 7, comment_text = ''OK''\<rparr>]"

text \<open>
  The JavaScript values that travel through the promises of this program: \<^verbatim>\<open>undefined\<close>,
  a reviewer object, an array of comments, and (for a rejection reason) an error with its
  message.
\<close>

datatype val =
  Undefined
  | Reviewer CodeReviewer
  | Comments "CodeReviewComment list"
  | Failure string

text \<open>\<^verbatim>\<open>BE_REVIEWERS.find(reviewer => reviewer.id === id)\<close>: the first match, or undefined.\<close>

definition find_reviewer :: "int \<Rightarrow> val" where
  "find_reviewer i =
    (case List.find (\<lambda>reviewer. reviewer_id reviewer = i) BE_REVIEWERS of
       None \<Rightarrow> Undefined
     | Some reviewer \<Rightarrow> Reviewer reviewer)"

text \<open>\<^verbatim>\<open>BE_COMMENTS.filter(comment => comment.reviewerId === id)\<close>.\<close>

definition comments_for :: "int \<Rightarrow> val" where
  "comments_for i = Comments (filter (\<lambda>comment. reviewerId comment = i) BE_COMMENTS)"

text \<open>\<^verbatim>\<open>[...].filter(r => r.reviewerId === id)\<close> of \<^verbatim>\<open>fetchUsersResponseToReviewer\<close>.\<close>

definition responses_for :: "int \<Rightarrow> val" where
  "responses_for i = Comments (filter (\<lambda>r. reviewerId r = i) BE_RESPONSES)"


section \<open>The run-time: promises, timers, the microtask queue\<close>

text \<open>
  A promise is pending, fulfilled with a value or rejected with a reason. A promise is
  named by its index in the store; a reference to a promise is always such an index, so
  the operations below are only ever applied to promises of the store. The only
  \<^verbatim>\<open>then\<close> of the adapter is the one of \<^verbatim>\<open>wrapPromise\<close>, so a registered reaction
  is a pair: the closure whose \<^verbatim>\<open>status\<close> and \<^verbatim>\<open>result\<close> the two handlers write,
  and the promise that \<^verbatim>\<open>then\<close> returned. The values that settle a promise here are
  plain data, never promises themselves.
\<close>

datatype pstate = Pending | Fulfilled val | Rejected val

type_synonym reaction = "nat \<times> nat"

record promise =
  state :: pstate
  reactions :: "reaction list"

text \<open>
  The variables one call of \<^verbatim>\<open>wrapPromise\<close> closes over: \<^verbatim>\<open>status\<close>,
  \<^verbatim>\<open>result\<close>, \<^verbatim>\<open>suspender\<close> and the parameter \<^verbatim>\<open>promise\<close>.
\<close>

record closure =
  status :: string
  result :: val
  suspender :: nat
  wrapped :: nat

text \<open>A queued reaction job: closure to write, settled state of the promise, derived promise.\<close>

type_synonym job = "nat \<times> pstate \<times> nat"

text \<open>
  The three \<^verbatim>\<open>setTimeout\<close> callbacks of the reviewer endpoints, each with the promise
  whose \<^verbatim>\<open>resolve\<close> it holds and the \<^verbatim>\<open>id\<close> it closes over.
\<close>

datatype callback =
  Fetched_reviewer nat int
  | Fetched_comments nat int
  | Fetched_responses nat int

type_synonym timer = "nat \<times> callback"

record world =
  clock :: nat
  promises :: "promise list"
  cells :: "closure list"
  timers :: "timer list"
  microtasks :: "job list"
  console :: "(string \<times> int) list"

definition empty_world :: world where
  "empty_world =
    \<lparr>clock = 0, promises = [], cells = [], timers = [], microtasks = [], console = []\<rparr>"

definition log :: "string \<Rightarrow> int \<Rightarrow> world \<Rightarrow> world" where
  "log s i w = w\<lparr>console := console w @ [(s, i)]\<rparr>"

text \<open>\<^verbatim>\<open>new Promise(...)\<close>: a fresh pending promise with no reaction.\<close>

definition new_promise :: "world \<Rightarrow> nat \<times> world" where
  "new_promise w =
    (length (promises w),
     w\<lparr>promises := promises w @ [\<lparr>state = Pending, reactions = []\<rparr>]\<rparr>)"

text \<open>\<^verbatim>\<open>setTimeout(cb, delay)\<close>: the callback may run once the clock has reached the due time.\<close>

definition setTimeout :: "callback \<Rightarrow> nat \<Rightarrow> world \<Rightarrow> world" where
  "setTimeout cb delay w = w\<lparr>timers := timers w @ [(clock w + delay, cb)]\<rparr>"

definition jobs_for :: "pstate \<Rightarrow> reaction list \<Rightarrow> job list" where
  "jobs_for s rs = map (\<lambda>(c, q). (c, s, q)) rs"

text \<open>
  Settling a promise (what its \<^verbatim>\<open>resolve\<close> and \<^verbatim>\<open>reject\<close> functions do, with a
  fulfilled or a rejected state): only a pending promise changes, and then one job per
  registered reaction is queued. Settling a settled promise does nothing.
\<close>

definition settle :: "nat \<Rightarrow> pstate \<Rightarrow> world \<Rightarrow> world" where
  "settle p s w =
    (if p < length (promises w) \<and> state (promises w ! p) = Pending \<and> s \<noteq> Pending
     then w\<lparr>promises := (promises w)[p := (promises w ! p)\<lparr>state := s\<rparr>],
            microtasks := microtasks w @ jobs_for s (reactions (promises w ! p))\<rparr>
     else w)"

definition resolve :: "nat \<Rightarrow> val \<Rightarrow> world \<Rightarrow> world" where
  "resolve p v w = settle p (Fulfilled v) w"

definition reject :: "nat \<Rightarrow> val \<Rightarrow> world \<Rightarrow> world" where
  "reject p e w = settle p (Rejected e) w"

text \<open>
  \<^verbatim>\<open>promise.then(onSuccess, onError)\<close> with the two handlers of closure \<open>c\<close>: returns a
  fresh promise; the reaction is registered, and when the promise is already settled its
  job is queued at once.
\<close>

definition then_handlers :: "nat \<Rightarrow> nat \<Rightarrow> world \<Rightarrow> nat \<times> world" where
  "then_handlers p c w =
    (let (q, w1) = new_promise w;
         pr = promises w1 ! p;
         w2 = w1\<lparr>promises := (promises w1)[p := pr\<lparr>reactions := reactions pr @ [(c, q)]\<rparr>]\<rparr>
     in (q, if state pr = Pending then w2
            else w2\<lparr>microtasks := microtasks w2 @ [(c, state pr, q)]\<rparr>))"


section \<open>wrapPromise\<close>

text \<open>
  \<^verbatim>\<open>
  export const wrapPromise = <T extends {}>(promise: Promise<T>) => {
    let status = "pending";
    let result;
    let suspender = promise.then(
      response => { status = "success"; result = response; },
      error => { status = "error"; result = error; }
    );
    return {
      read(): T {
        if (status === "pending") { throw suspender; }
        else if (status === "error") { throw result; }
        else if (status === "success") { return result; }
      }
    };
  }
  \<close>
  The returned object is named by the index of its closure.
\<close>

definition wrapPromise :: "nat \<Rightarrow> world \<Rightarrow> nat \<times> world" where
  "wrapPromise p w =
    (let c = length (cells w);
         (q, w1) = then_handlers p c w
     in (c, w1\<lparr>cells := cells w1 @
              [\<lparr>status = ''pending'', result = Undefined, suspender = q, wrapped = p\<rparr>]\<rparr>))"

definition on_success :: "nat \<Rightarrow> val \<Rightarrow> world \<Rightarrow> world" where
  "on_success c response w =
    w\<lparr>cells := (cells w)[c := (cells w ! c)\<lparr>status := ''success'', result := response\<rparr>]\<rparr>"

definition on_error :: "nat \<Rightarrow> val \<Rightarrow> world \<Rightarrow> world" where
  "on_error c error w =
    w\<lparr>cells := (cells w)[c := (cells w ! c)\<lparr>status := ''error'', result := error\<rparr>]\<rparr>"

text \<open>
  A reaction job runs the handler that matches the settled state, then resolves the promise
  that \<^verbatim>\<open>then\<close> returned with the handler's return value, which is undefined.
\<close>

definition run_job :: "job \<Rightarrow> world \<Rightarrow> world" where
  "run_job j w =
    (case j of (c, s, q) \<Rightarrow>
      (case s of
         Pending \<Rightarrow> w
       | Fulfilled v \<Rightarrow> resolve q Undefined (on_success c v w)
       | Rejected e \<Rightarrow> resolve q Undefined (on_error c e w)))"

text \<open>
  What a call of \<^verbatim>\<open>read()\<close> does: return a value, throw a promise, throw a value, or
  fall off the end of the if/else-if chain (JavaScript then returns undefined; the outcome
  is kept apart from a returned result that happens to be undefined). The resource is named
  by the index of its closure.
\<close>

datatype outcome =
  Returned val
  | Thrown_promise nat
  | Thrown val
  | Fell_through

definition read :: "nat \<Rightarrow> world \<Rightarrow> outcome \<times> world" where
  "read c w =
    (let k = cells w ! c in
     if status k = ''pending'' then (Thrown_promise (suspender k), w)
     else if status k = ''error'' then (Thrown (result k), w)
     else if status k = ''success'' then (Returned (result k), w)
     else (Fell_through, w))"


text \<open>
  The microtask checkpoint at the end of a task: reaction jobs run in queue order until the
  queue is empty. A job can queue further jobs (it resolves the derived promise), so the
  loop ends because every such round settles one more pending promise.
\<close>

definition pending_count :: "world \<Rightarrow> nat" where
  "pending_count w = length (filter (\<lambda>pr. state pr = Pending) (promises w))"

function drain :: "world \<Rightarrow> world" where
  "drain w =
    (case microtasks w of
       [] \<Rightarrow> w
     | j # js \<Rightarrow> drain (run_job j (w\<lparr>microtasks := js\<rparr>)))"
  by pat_completeness auto

lemma pending_filter_update:
  "p < length ps \<Longrightarrow> state (ps ! p) = Pending \<Longrightarrow> s \<noteq> Pending \<Longrightarrow>
   length (filter (\<lambda>pr. state pr = Pending) (ps[p := (ps ! p)\<lparr>state := s\<rparr>]))
     < length (filter (\<lambda>pr. state pr = Pending) ps)"
proof (induction ps arbitrary: p)
  case Nil
  then show ?case by simp
next
  case (Cons a ps)
  show ?case
  proof (cases p)
    case 0
    with Cons.prems show ?thesis by simp
  next
    case (Suc n)
    with Cons.prems Cons.IH [of n] show ?thesis by simp
  qed
qed

lemma settle_measure:
  "settle p s w = w \<or> pending_count (settle p s w) < pending_count w"
  by (simp add: settle_def pending_count_def pending_filter_update)

lemma run_job_measure:
  "(pending_count (run_job j (w\<lparr>microtasks := js\<rparr>)) < pending_count w) \<or>
   (pending_count (run_job j (w\<lparr>microtasks := js\<rparr>)) = pending_count w \<and>
    length (microtasks (run_job j (w\<lparr>microtasks := js\<rparr>))) = length js)"
proof -
  obtain c s q where j: "j = (c, s, q)" by (cases j)
  show ?thesis
  proof (cases s)
    case Pending
    with j show ?thesis by (simp add: run_job_def pending_count_def)
  next
    case (Fulfilled v)
    let ?w = "on_success c v (w\<lparr>microtasks := js\<rparr>)"
    have a: "pending_count ?w = pending_count w" "microtasks ?w = js"
      by (simp_all add: on_success_def pending_count_def)
    from settle_measure [of q "Fulfilled Undefined" ?w] a j Fulfilled show ?thesis
      by (auto simp: run_job_def resolve_def)
  next
    case (Rejected e)
    let ?w = "on_error c e (w\<lparr>microtasks := js\<rparr>)"
    have a: "pending_count ?w = pending_count w" "microtasks ?w = js"
      by (simp_all add: on_error_def pending_count_def)
    from settle_measure [of q "Fulfilled Undefined" ?w] a j Rejected show ?thesis
      by (auto simp: run_job_def resolve_def)
  qed
qed

termination drain
proof (relation "measures [pending_count, \<lambda>w. length (microtasks w)]")
  show "wf (measures [pending_count, \<lambda>w. length (microtasks w)])" by simp
next
  fix w :: world and j js
  assume "microtasks w = j # js"
  with run_job_measure [of j js w]
  show "(run_job j (w\<lparr>microtasks := js\<rparr>), w)
          \<in> measures [pending_count, \<lambda>w. length (microtasks w)]"
    by auto
qed

declare drain.simps [simp del]


section \<open>The reviewer endpoints of myEndPoints.ts\<close>

text \<open>
  \<^verbatim>\<open>
  export const fetchReviewer = (id: number) => {
    console.log("fetching code reviewer...", id);
    return new Promise<CodeReviewer>(resolve => {
      setTimeout(() => {
        console.log("fetched reviewer", id);
        resolve(BE_REVIEWERS.find(reviewer => reviewer.id === id));
      }, 300);
    });
  };
  \<close>
  and likewise \<^verbatim>\<open>fetchCommentsForReviewer\<close> (800) and
  \<^verbatim>\<open>fetchUsersResponseToReviewer\<close> (1500).
\<close>

definition fetchReviewer :: "int \<Rightarrow> world \<Rightarrow> nat \<times> world" where
  "fetchReviewer i w =
    (let (p, w1) = new_promise (log ''fetching code reviewer...'' i w)
     in (p, setTimeout (Fetched_reviewer p i) 300 w1))"

definition fetchCommentsForReviewer :: "int \<Rightarrow> world \<Rightarrow> nat \<times> world" where
  "fetchCommentsForReviewer i w =
    (let (p, w1) = new_promise (log ''fetching comments...'' i w)
     in (p, setTimeout (Fetched_comments p i) 800 w1))"

definition fetchUsersResponseToReviewer :: "int \<Rightarrow> world \<Rightarrow> nat \<times> world" where
  "fetchUsersResponseToReviewer i w =
    (let (p, w1) = new_promise (log ''fetching responses...'' i w)
     in (p, setTimeout (Fetched_responses p i) 1500 w1))"

text \<open>The body of each timer callback: log, then resolve the promise.\<close>

fun run_callback :: "callback \<Rightarrow> world \<Rightarrow> world" where
  "run_callback (Fetched_reviewer p i) w =
     resolve p (find_reviewer i) (log ''fetched reviewer'' i w)"
| "run_callback (Fetched_comments p i) w =
     resolve p (comments_for i) (log ''fetched comments'' i w)"
| "run_callback (Fetched_responses p i) w =
     resolve p (responses_for i) (log ''fetched responses'' i w)"

text \<open>
  \<^verbatim>\<open>
  export const fetchCodeReviewerData = (id: number) => {
    const codeReviewerPromise = fetchReviewer(id);
    const commentsForReviewerPromise = fetchCommentsForReviewer(id);
    const responsesToReviewerPromise = fetchUsersResponseToReviewer(id);
    return {
      id,
      reviewer: wrapPromise<CodeReviewer>(codeReviewerPromise),
      comments: wrapPromise<CodeReviewComment[]>(commentsForReviewerPromise),
      responses: wrapPromise<CodeReviewComment[]>(responsesToReviewerPromise),
    }
  };
  \<close>
\<close>

record ReviewerResource =
  bundle_id :: int
  reviewer :: nat
  comments :: nat
  responses :: nat

definition fetchCodeReviewerData :: "int \<Rightarrow> world \<Rightarrow> ReviewerResource \<times> world" where
  "fetchCodeReviewerData i w =
    (let (codeReviewerPromise, w1) = fetchReviewer i w;
         (commentsForReviewerPromise, w2) = fetchCommentsForReviewer i w1;
         (responsesToReviewerPromise, w3) = fetchUsersResponseToReviewer i w2;
         (r, w4) = wrapPromise codeReviewerPromise w3;
         (c, w5) = wrapPromise commentsForReviewerPromise w4;
         (s, w6) = wrapPromise responsesToReviewerPromise w5
     in (\<lparr>bundle_id = i, reviewer = r, comments = c, responses = s\<rparr>, w6))"


section \<open>The event loop\<close>

text \<open>
  What can happen to a world, one step at a time: the clock advances, a due timer fires,
  the first queued reaction job runs, some code creates a promise, resolves or rejects one,
  wraps one, reads a resource or builds a bundle.
\<close>

datatype action =
  Tick
  | Fire nat
  | Microtask
  | Create
  | Resolve nat val
  | Reject nat val
  | Wrap nat
  | Read nat
  | Fetch int

definition fire :: "nat \<Rightarrow> world \<Rightarrow> world" where
  "fire k w =
    (if k < length (timers w) \<and> fst (timers w ! k) \<le> clock w
     then run_callback (snd (timers w ! k))
            (w\<lparr>timers := take k (timers w) @ drop (Suc k) (timers w)\<rparr>)
     else w)"

definition microtask :: "world \<Rightarrow> world" where
  "microtask w =
    (case microtasks w of
       [] \<Rightarrow> w
     | j # js \<Rightarrow> run_job j (w\<lparr>microtasks := js\<rparr>))"

fun step :: "action \<Rightarrow> world \<Rightarrow> world" where
  "step Tick w = w\<lparr>clock := Suc (clock w)\<rparr>"
| "step (Fire k) w = fire k w"
| "step Microtask w = microtask w"
| "step Create w = snd (new_promise w)"
| "step (Resolve p v) w = resolve p v w"
| "step (Reject p e) w = reject p e w"
| "step (Wrap p) w = (if p < length (promises w) then snd (wrapPromise p w) else w)"
| "step (Read c) w = snd (read c w)"
| "step (Fetch i) w = snd (fetchCodeReviewerData i w)"

fun exec :: "action list \<Rightarrow> world \<Rightarrow> world" where
  "exec [] w = w"
| "exec (a # as) w = exec as (step a w)"

text \<open>
  An idle, prompt event loop: each time unit the clock advances, then every timer that is
  due runs as a task of its own, the first due timer first, each followed by its microtask
  checkpoint. A timer callback sets no timer, so the loop ends.
\<close>

lemma run_job_timers: "timers (run_job j w) = timers w"
  by (cases j)
     (simp add: run_job_def resolve_def settle_def on_success_def on_error_def
           split: pstate.splits)

lemma drain_timers: "timers (drain w) = timers w"
proof (induction w rule: drain.induct)
  case (1 w)
  show ?case
  proof (cases "microtasks w")
    case Nil
    then show ?thesis by (simp add: drain.simps)
  next
    case (Cons j js)
    with 1 show ?thesis by (simp add: drain.simps run_job_timers)
  qed
qed

lemma fire_timers:
  "k < length (timers w) \<Longrightarrow> fst (timers w ! k) \<le> clock w \<Longrightarrow>
   timers (fire k w) = take k (timers w) @ drop (Suc k) (timers w)"
  by (cases "snd (timers w ! k)") (simp_all add: fire_def resolve_def settle_def log_def)

definition first_due :: "world \<Rightarrow> nat option" where
  "first_due w = List.find (\<lambda>k. fst (timers w ! k) \<le> clock w) [0..<length (timers w)]"

function fire_due :: "world \<Rightarrow> world" where
  "fire_due w =
    (case first_due w of
       None \<Rightarrow> w
     | Some k \<Rightarrow> fire_due (drain (fire k w)))"
  by pat_completeness auto

termination fire_due
proof (relation "measure (\<lambda>w. length (timers w))")
  show "wf (measure (\<lambda>w. length (timers w)))" by simp
next
  fix w k
  assume "first_due w = Some k"
  then have "k < length (timers w)" "fst (timers w ! k) \<le> clock w"
    by (auto simp: first_due_def find_Some_iff)
  then show "(drain (fire k w), w) \<in> measure (\<lambda>w. length (timers w))"
    by (simp add: drain_timers fire_timers)
qed

declare fire_due.simps [simp del]

fun advance :: "nat \<Rightarrow> world \<Rightarrow> world" where
  "advance 0 w = w"
| "advance (Suc n) w = advance n (fire_due (step Tick w))"


section \<open>The reviewer-details controller\<close>

text \<open>
  \<^verbatim>\<open>
  const getNextId = (id: number) => {
    switch(id) { case 3: return 5; case 5: return 7; default: return 3; }
  };
  const initialResource = fetchCodeReviewerData(3);
  enum TABS { HOME = 'HOME', REVIEWER_DETAILS = 'REVIEWER_DETAILS' }

  const [resource, setResource] = React.useState(initialResource);
  const [tab, setTab] = React.useState<string>(TABS.HOME);
  const handleClick = () => {
    const nextUserId = getNextId(resource.id);
    setResource(fetchCodeReviewerData(nextUserId));
    setTab(TABS.REVIEWER_DETAILS);
  };
  \<close>
  The two state updates of one click are applied together, and each click sees the state
  the click before it left; when React renders (the button wraps the handler in
  \<^verbatim>\<open>startTransition\<close>) is the framework's business and not part of this model.
\<close>

definition getNextId :: "int \<Rightarrow> int" where
  "getNextId i = (if i = 3 then 5 else if i = 5 then 7 else 3)"

datatype TABS = HOME | REVIEWER_DETAILS

record app =
  world :: world
  resource :: ReviewerResource
  tab :: TABS

definition initialResource :: "ReviewerResource \<times> world" where
  "initialResource = fetchCodeReviewerData 3 empty_world"

definition initial_app :: app where
  "initial_app = \<lparr>world = snd initialResource, resource = fst initialResource, tab = HOME\<rparr>"

definition handleClick :: "app \<Rightarrow> app" where
  "handleClick s =
    (let nextUserId = getNextId (bundle_id (resource s));
         (b, w) = fetchCodeReviewerData nextUserId (world s)
     in s\<lparr>world := w, resource := b, tab := REVIEWER_DETAILS\<rparr>)"

text \<open>
  What happens to the running application: the user clicks the button, time passes, a due
  timer fires, a reaction job runs, or a component reads a resource while rendering.
\<close>

datatype event = Click | Pass | Timeout nat | Job | Render nat

fun app_step :: "event \<Rightarrow> app \<Rightarrow> app" where
  "app_step Click s = handleClick s"
| "app_step Pass s = s\<lparr>world := step Tick (world s)\<rparr>"
| "app_step (Timeout k) s = s\<lparr>world := step (Fire k) (world s)\<rparr>"
| "app_step Job s = s\<lparr>world := step Microtask (world s)\<rparr>"
| "app_step (Render c) s = s\<lparr>world := step (Read c) (world s)\<rparr>"

fun run :: "event list \<Rightarrow> app \<Rightarrow> app" where
  "run [] s = s"
| "run (e # es) s = run es (app_step e s)"


section \<open>Proofs: what each primitive does to each part of the world\<close>

definition fires :: "nat \<Rightarrow> pstate \<Rightarrow> world \<Rightarrow> bool" where
  "fires p s w \<longleftrightarrow> p < length (promises w) \<and> state (promises w ! p) = Pending \<and> s \<noteq> Pending"

lemma settle_cells [simp]: "cells (settle p s w) = cells w"
  and settle_timers [simp]: "timers (settle p s w) = timers w"
  and settle_clock [simp]: "clock (settle p s w) = clock w"
  and settle_console [simp]: "console (settle p s w) = console w"
  and settle_length [simp]: "length (promises (settle p s w)) = length (promises w)"
  by (simp_all add: settle_def)

lemma settle_reactions [simp]:
  "reactions (promises (settle p s w) ! p') = reactions (promises w ! p')"
  by (cases "p' = p") (simp_all add: settle_def)

lemma settle_state:
  "state (promises (settle p s w) ! p') =
     (if p' = p \<and> fires p s w then s else state (promises w ! p'))"
  by (cases "p' = p") (simp_all add: settle_def fires_def)

lemma settle_microtasks:
  "microtasks (settle p s w) =
     microtasks w @ (if fires p s w then jobs_for s (reactions (promises w ! p)) else [])"
  by (simp add: settle_def fires_def)

lemma wrap_fst [simp]: "fst (wrapPromise p w) = length (cells w)"
  by (simp add: wrapPromise_def then_handlers_def new_promise_def Let_def split: prod.splits)

lemma wrap_cells [simp]:
  "cells (snd (wrapPromise p w)) = cells w @
     [\<lparr>status = ''pending'', result = Undefined, suspender = length (promises w), wrapped = p\<rparr>]"
  and wrap_timers [simp]: "timers (snd (wrapPromise p w)) = timers w"
  and wrap_clock [simp]: "clock (snd (wrapPromise p w)) = clock w"
  and wrap_console [simp]: "console (snd (wrapPromise p w)) = console w"
  and wrap_length [simp]: "length (promises (snd (wrapPromise p w))) = Suc (length (promises w))"
  by (simp_all add: wrapPromise_def then_handlers_def new_promise_def Let_def split: prod.splits)

lemma wrap_state:
  "p < length (promises w) \<Longrightarrow> p' \<le> length (promises w) \<Longrightarrow>
   state (promises (snd (wrapPromise p w)) ! p') =
     (if p' = length (promises w) then Pending else state (promises w ! p'))"
  by (cases "p' = p")
     (auto simp add: wrapPromise_def then_handlers_def new_promise_def Let_def nth_append
           split: prod.splits)

lemma wrap_reactions:
  "p < length (promises w) \<Longrightarrow> p' \<le> length (promises w) \<Longrightarrow>
   reactions (promises (snd (wrapPromise p w)) ! p') =
     (if p' = p then reactions (promises w ! p) @ [(length (cells w), length (promises w))]
      else if p' = length (promises w) then [] else reactions (promises w ! p'))"
  by (cases "p' = p")
     (auto simp add: wrapPromise_def then_handlers_def new_promise_def Let_def nth_append
           split: prod.splits)

lemma wrap_microtasks:
  "p < length (promises w) \<Longrightarrow>
   microtasks (snd (wrapPromise p w)) =
     microtasks w @ (if state (promises w ! p) = Pending then []
                     else [(length (cells w), state (promises w ! p), length (promises w))])"
  by (auto simp add: wrapPromise_def then_handlers_def new_promise_def Let_def nth_append
           split: prod.splits)


subsection \<open>The invariant of every reachable world\<close>

fun target :: "callback \<Rightarrow> nat" where
  "target (Fetched_reviewer p i) = p"
| "target (Fetched_comments p i) = p"
| "target (Fetched_responses p i) = p"

definition subscribed :: "world \<Rightarrow> nat \<Rightarrow> nat \<Rightarrow> nat" where
  "subscribed w p c = length (filter (\<lambda>r. fst r = c) (reactions (promises w ! p)))"

definition queued :: "world \<Rightarrow> nat \<Rightarrow> nat" where
  "queued w c = length (filter (\<lambda>j. fst j = c) (microtasks w))"

definition bounded :: "world \<Rightarrow> bool" where
  "bounded w \<longleftrightarrow>
    (\<forall>p < length (promises w). \<forall>r \<in> set (reactions (promises w ! p)).
        fst r < length (cells w) \<and> snd r < length (promises w)) \<and>
    (\<forall>j \<in> set (microtasks w).
        fst j < length (cells w) \<and> fst (snd j) \<noteq> Pending \<and> snd (snd j) < length (promises w)) \<and>
    (\<forall>t \<in> set (timers w). target (snd t) < length (promises w)) \<and>
    (\<forall>c < length (cells w). wrapped (cells w ! c) < length (promises w))"

definition cell_ok :: "world \<Rightarrow> nat \<Rightarrow> bool" where
  "cell_ok w c \<longleftrightarrow>
    (\<forall>p < length (promises w).
        subscribed w p c = (if p = wrapped (cells w ! c) then 1 else 0)) \<and>
    (\<forall>j \<in> set (microtasks w).
        fst j = c \<longrightarrow> fst (snd j) = state (promises w ! wrapped (cells w ! c))) \<and>
    queued w c =
      (if state (promises w ! wrapped (cells w ! c)) \<noteq> Pending \<and>
          status (cells w ! c) = ''pending'' then 1 else 0) \<and>
    (status (cells w ! c) = ''pending'' \<or>
     status (cells w ! c) = ''success'' \<and>
       state (promises w ! wrapped (cells w ! c)) = Fulfilled (result (cells w ! c)) \<or>
     status (cells w ! c) = ''error'' \<and>
       state (promises w ! wrapped (cells w ! c)) = Rejected (result (cells w ! c)))"

definition inv :: "world \<Rightarrow> bool" where
  "inv w \<longleftrightarrow> bounded w \<and> (\<forall>c < length (cells w). cell_ok w c)"

lemma inv_empty: "inv empty_world"
  by (simp add: inv_def bounded_def empty_world_def)

lemma count_jobs_for:
  "length (filter (\<lambda>j. fst j = c) (jobs_for s rs)) = length (filter (\<lambda>r. fst r = c) rs)"
  by (induction rs) (auto simp: jobs_for_def)

lemma ball_jobs_for:
  "(\<forall>j \<in> set (jobs_for s rs). P j) \<longleftrightarrow> (\<forall>r \<in> set rs. P (fst r, s, snd r))"
  by (force simp: jobs_for_def)

lemma settle_idle: "\<not> fires p s w \<Longrightarrow> settle p s w = w"
  by (auto simp add: settle_def fires_def)

lemma settle_fires:
  "fires p s w \<Longrightarrow>
   microtasks (settle p s w) = microtasks w @ jobs_for s (reactions (promises w ! p))"
  by (simp add: settle_microtasks)

lemma bounded_settle:
  assumes "bounded w"
  shows "bounded (settle p s w)"
proof (cases "fires p s w")
  case False
  with assms show ?thesis by (simp add: settle_idle)
next
  case True
  then have p: "p < length (promises w)" "s \<noteq> Pending"
    by (simp_all add: fires_def)
  with assms have "\<forall>r \<in> set (reactions (promises w ! p)).
      fst r < length (cells w) \<and> snd r < length (promises w)"
    by (simp add: bounded_def)
  with assms p show ?thesis
    unfolding bounded_def
    by (simp add: settle_fires [OF True] ball_jobs_for ball_Un)
qed

lemma cell_ok_settle:
  assumes b: "bounded w" and ok: "cell_ok w c" and c: "c < length (cells w)"
  shows "cell_ok (settle p s w) c"
proof (cases "fires p s w")
  case False
  then have "settle p s w = w" by (auto simp add: settle_def fires_def)
  with ok show ?thesis by simp
next
  case True
  let ?pc = "wrapped (cells w ! c)"
  let ?w = "settle p s w"
  from True have p: "p < length (promises w)" "state (promises w ! p) = Pending" "s \<noteq> Pending"
    by (simp_all add: fires_def)
  from ok p have sub: "subscribed w p c = (if p = ?pc then 1 else 0)"
    by (simp add: cell_ok_def)
  from ok have okj: "\<forall>j \<in> set (microtasks w). fst j = c \<longrightarrow> fst (snd j) = state (promises w ! ?pc)"
    by (simp add: cell_ok_def)
  from ok have okq: "queued w c =
      (if state (promises w ! ?pc) \<noteq> Pending \<and> status (cells w ! c) = ''pending'' then 1 else 0)"
    by (simp add: cell_ok_def)
  from ok have oks: "status (cells w ! c) = ''pending'' \<or>
     status (cells w ! c) = ''success'' \<and> state (promises w ! ?pc) = Fulfilled (result (cells w ! c)) \<or>
     status (cells w ! c) = ''error'' \<and> state (promises w ! ?pc) = Rejected (result (cells w ! c))"
    by (simp add: cell_ok_def)
  from b have bj: "\<forall>j \<in> set (microtasks w). fst (snd j) \<noteq> Pending"
    by (simp add: bounded_def)
  have mt: "microtasks ?w = microtasks w @ jobs_for s (reactions (promises w ! p))"
    using True by (simp add: settle_microtasks)
  have stt: "state (promises ?w ! p') = (if p' = p then s else state (promises w ! p'))" for p'
    using True by (simp add: settle_state)
  have 1: "\<forall>p' < length (promises ?w).
        subscribed ?w p' c = (if p' = wrapped (cells ?w ! c) then 1 else 0)"
    using ok by (simp add: cell_ok_def subscribed_def)
  show ?thesis
  proof (cases "p = ?pc")
    case True
    then have same: "wrapped (cells w ! c) = p" by simp
    have old: "\<forall>j \<in> set (microtasks w). fst j \<noteq> c"
      using okj bj p same by metis
    then have q0: "queued w c = 0"
      by (simp add: queued_def filter_empty_conv)
    have st: "status (cells w ! c) = ''pending''"
      using oks p same by auto
    have 2: "\<forall>j \<in> set (microtasks ?w). fst j = c \<longrightarrow> fst (snd j) = state (promises ?w ! wrapped (cells ?w ! c))"
      using old same by (simp add: mt stt ball_jobs_for ball_Un)
    have 3: "queued ?w c =
      (if state (promises ?w ! wrapped (cells ?w ! c)) \<noteq> Pending \<and>
          status (cells ?w ! c) = ''pending'' then 1 else 0)"
      using q0 sub same st p
      by (simp add: queued_def mt stt count_jobs_for subscribed_def)
    have 4: "status (cells ?w ! c) = ''pending''" using st by simp
    from 1 2 3 4 show ?thesis unfolding cell_ok_def by blast
  next
    case False
    then have other: "wrapped (cells w ! c) \<noteq> p" by simp
    from sub other have "subscribed w p c = 0" by simp
    then have none: "\<forall>r \<in> set (reactions (promises w ! p)). fst r \<noteq> c"
      by (simp add: subscribed_def filter_empty_conv)
    have 2: "\<forall>j \<in> set (microtasks ?w). fst j = c \<longrightarrow> fst (snd j) = state (promises ?w ! wrapped (cells ?w ! c))"
      using okj none other by (simp add: mt stt ball_jobs_for ball_Un)
    have 3: "queued ?w c =
      (if state (promises ?w ! wrapped (cells ?w ! c)) \<noteq> Pending \<and>
          status (cells ?w ! c) = ''pending'' then 1 else 0)"
      using okq sub other
      by (simp add: queued_def mt stt count_jobs_for subscribed_def)
    have 4: "status (cells ?w ! c) = ''pending'' \<or>
       status (cells ?w ! c) = ''success'' \<and>
         state (promises ?w ! wrapped (cells ?w ! c)) = Fulfilled (result (cells ?w ! c)) \<or>
       status (cells ?w ! c) = ''error'' \<and>
         state (promises ?w ! wrapped (cells ?w ! c)) = Rejected (result (cells ?w ! c))"
      using oks other by (simp add: stt)
    from 1 2 3 4 show ?thesis unfolding cell_ok_def by blast
  qed
qed

lemma inv_settle: "inv w \<Longrightarrow> inv (settle p s w)"
  by (simp add: inv_def bounded_settle cell_ok_settle)


lemma cell_okI:
  assumes "\<And>p. p < length (promises w) \<Longrightarrow>
             subscribed w p c = (if p = wrapped (cells w ! c) then 1 else 0)"
    and "\<And>j. j \<in> set (microtasks w) \<Longrightarrow> fst j = c \<Longrightarrow>
             fst (snd j) = state (promises w ! wrapped (cells w ! c))"
    and "queued w c =
      (if state (promises w ! wrapped (cells w ! c)) \<noteq> Pending \<and>
          status (cells w ! c) = ''pending'' then 1 else 0)"
    and "status (cells w ! c) = ''pending'' \<or>
     status (cells w ! c) = ''success'' \<and>
       state (promises w ! wrapped (cells w ! c)) = Fulfilled (result (cells w ! c)) \<or>
     status (cells w ! c) = ''error'' \<and>
       state (promises w ! wrapped (cells w ! c)) = Rejected (result (cells w ! c))"
  shows "cell_ok w c"
  using assms unfolding cell_ok_def by blast

lemma cell_ok_sub:
  "cell_ok w c \<Longrightarrow> p < length (promises w) \<Longrightarrow>
   subscribed w p c = (if p = wrapped (cells w ! c) then 1 else 0)"
  by (simp add: cell_ok_def)

lemma cell_ok_job:
  "cell_ok w c \<Longrightarrow> j \<in> set (microtasks w) \<Longrightarrow> fst j = c \<Longrightarrow>
   fst (snd j) = state (promises w ! wrapped (cells w ! c))"
  by (simp add: cell_ok_def)

lemma cell_ok_queued:
  "cell_ok w c \<Longrightarrow> queued w c =
      (if state (promises w ! wrapped (cells w ! c)) \<noteq> Pending \<and>
          status (cells w ! c) = ''pending'' then 1 else 0)"
  by (simp add: cell_ok_def)

lemma cell_ok_status:
  "cell_ok w c \<Longrightarrow> status (cells w ! c) = ''pending'' \<or>
     status (cells w ! c) = ''success'' \<and>
       state (promises w ! wrapped (cells w ! c)) = Fulfilled (result (cells w ! c)) \<or>
     status (cells w ! c) = ''error'' \<and>
       state (promises w ! wrapped (cells w ! c)) = Rejected (result (cells w ! c))"
  by (simp add: cell_ok_def)

lemma inv_frame:
  assumes "inv w" and "promises w' = promises w" and "cells w' = cells w"
    and "microtasks w' = microtasks w" and "set (timers w') \<subseteq> set (timers w)"
  shows "inv w'"
proof -
  from assms have "bounded w'"
    unfolding inv_def bounded_def by auto
  moreover have "cell_ok w' c" if "cell_ok w c" for c
    using that assms(2-4) by (simp add: cell_ok_def subscribed_def queued_def)
  ultimately show ?thesis using assms by (simp add: inv_def)
qed

text \<open>The handler of a reaction job, as one write of the closure.\<close>

fun status_of :: "pstate \<Rightarrow> string" where
  "status_of Pending = ''pending''"
| "status_of (Fulfilled v) = ''success''"
| "status_of (Rejected e) = ''error''"

fun value_of :: "pstate \<Rightarrow> val" where
  "value_of Pending = Undefined"
| "value_of (Fulfilled v) = v"
| "value_of (Rejected e) = e"

definition written :: "nat \<Rightarrow> pstate \<Rightarrow> world \<Rightarrow> world" where
  "written c s w =
    w\<lparr>cells := (cells w)[c := (cells w ! c)\<lparr>status := status_of s, result := value_of s\<rparr>]\<rparr>"

lemma run_job_written:
  "s \<noteq> Pending \<Longrightarrow> run_job (c, s, q) w = settle q (Fulfilled Undefined) (written c s w)"
  by (cases s) (simp_all add: run_job_def resolve_def written_def on_success_def on_error_def)

lemma status_of_cases:
  "s \<noteq> Pending \<Longrightarrow>
   status_of s = ''success'' \<and> s = Fulfilled (value_of s) \<or>
   status_of s = ''error'' \<and> s = Rejected (value_of s)"
  by (cases s) simp_all

lemma status_of_pending [simp]: "status_of s = ''pending'' \<longleftrightarrow> s = Pending"
  by (cases s) simp_all

lemma inv_written:
  assumes i: "inv w" and m: "microtasks w = (c, s, q) # js"
  shows "inv (written c s (w\<lparr>microtasks := js\<rparr>))"
proof -
  let ?w = "written c s (w\<lparr>microtasks := js\<rparr>)"
  from i have b: "bounded w" and ok: "\<And>c. c < length (cells w) \<Longrightarrow> cell_ok w c"
    by (simp_all add: inv_def)
  from b m have c: "c < length (cells w)" and s: "s \<noteq> Pending"
    by (simp_all add: bounded_def)
  have pr [simp]: "promises ?w = promises w" and mt [simp]: "microtasks ?w = js"
    and len [simp]: "length (cells ?w) = length (cells w)"
    and tm [simp]: "timers ?w = timers w"
    by (simp_all add: written_def)
  have wr [simp]: "wrapped (cells ?w ! c') = wrapped (cells w ! c')" for c'
    using c by (cases "c' = c") (simp_all add: written_def)
  have other: "c' \<noteq> c \<Longrightarrow> cells ?w ! c' = cells w ! c'" for c'
    by (simp add: written_def)
  have self: "status (cells ?w ! c) = status_of s" "result (cells ?w ! c) = value_of s"
    using c by (simp_all add: written_def)
  have sub [simp]: "subscribed ?w p c' = subscribed w p c'" for p c'
    by (simp add: subscribed_def)
  have "bounded ?w"
    using b m unfolding bounded_def by simp
  moreover have "cell_ok ?w c'" if c': "c' < length (cells w)" for c'
  proof (cases "c' = c")
    case False
    from m False have q: "queued ?w c' = queued w c'" by (simp add: queued_def)
    show ?thesis
    proof (rule cell_okI)
      fix p assume "p < length (promises ?w)"
      then show "subscribed ?w p c' = (if p = wrapped (cells ?w ! c') then 1 else 0)"
        using cell_ok_sub [OF ok [OF c'], of p] by simp
    next
      fix j assume "j \<in> set (microtasks ?w)" "fst j = c'"
      then show "fst (snd j) = state (promises ?w ! wrapped (cells ?w ! c'))"
        using cell_ok_job [OF ok [OF c'], of j] m by simp
    next
      show "queued ?w c' =
        (if state (promises ?w ! wrapped (cells ?w ! c')) \<noteq> Pending \<and>
            status (cells ?w ! c') = ''pending'' then 1 else 0)"
        using cell_ok_queued [OF ok [OF c']] q other [OF False] by simp
    next
      show "status (cells ?w ! c') = ''pending'' \<or>
        status (cells ?w ! c') = ''success'' \<and>
          state (promises ?w ! wrapped (cells ?w ! c')) = Fulfilled (result (cells ?w ! c')) \<or>
        status (cells ?w ! c') = ''error'' \<and>
          state (promises ?w ! wrapped (cells ?w ! c')) = Rejected (result (cells ?w ! c'))"
        using cell_ok_status [OF ok [OF c']] other [OF False] by simp
    qed
  next
    case True
    from cell_ok_job [OF ok [OF c], of "(c, s, q)"] m
    have st: "state (promises w ! wrapped (cells w ! c)) = s" by simp
    from m have "queued w c = Suc (queued ?w c)" by (simp add: queued_def)
    with cell_ok_queued [OF ok [OF c]] have q: "queued ?w c = 0"
      by (simp split: if_splits)
    show ?thesis unfolding True
    proof (rule cell_okI)
      fix p assume "p < length (promises ?w)"
      then show "subscribed ?w p c = (if p = wrapped (cells ?w ! c) then 1 else 0)"
        using cell_ok_sub [OF ok [OF c], of p] by simp
    next
      fix j assume "j \<in> set (microtasks ?w)" "fst j = c"
      then show "fst (snd j) = state (promises ?w ! wrapped (cells ?w ! c))"
        using cell_ok_job [OF ok [OF c], of j] m by simp
    next
      show "queued ?w c =
        (if state (promises ?w ! wrapped (cells ?w ! c)) \<noteq> Pending \<and>
            status (cells ?w ! c) = ''pending'' then 1 else 0)"
        using q s by (simp add: self)
    next
      show "status (cells ?w ! c) = ''pending'' \<or>
        status (cells ?w ! c) = ''success'' \<and>
          state (promises ?w ! wrapped (cells ?w ! c)) = Fulfilled (result (cells ?w ! c)) \<or>
        status (cells ?w ! c) = ''error'' \<and>
          state (promises ?w ! wrapped (cells ?w ! c)) = Rejected (result (cells ?w ! c))"
        using status_of_cases [OF s] st by (simp add: self)
    qed
  qed
  ultimately show ?thesis by (simp add: inv_def)
qed

lemma inv_run_job:
  assumes i: "inv w" and m: "microtasks w = j # js"
  shows "inv (run_job j (w\<lparr>microtasks := js\<rparr>))"
proof -
  obtain c s q where j: "j = (c, s, q)" by (cases j)
  from i m j have s: "s \<noteq> Pending" by (simp add: inv_def bounded_def)
  from inv_written [OF i m [unfolded j]] show ?thesis
    unfolding j run_job_written [OF s] by (rule inv_settle)
qed

lemma inv_microtask: "inv w \<Longrightarrow> inv (microtask w)"
  by (auto simp: microtask_def inv_run_job split: list.splits)

lemma inv_drain: "inv w \<Longrightarrow> inv (drain w)"
proof (induction w rule: drain.induct)
  case (1 w)
  show ?case
  proof (cases "microtasks w")
    case Nil
    with 1 show ?thesis by (simp add: drain.simps)
  next
    case (Cons j js)
    with 1 inv_run_job [of w j js] show ?thesis by (simp add: drain.simps)
  qed
qed


lemma inv_new_promise:
  assumes i: "inv w"
  shows "inv (snd (new_promise w))"
proof -
  let ?w = "snd (new_promise w)"
  let ?n = "length (promises w)"
  from i have b: "bounded w" and ok: "\<And>c. c < length (cells w) \<Longrightarrow> cell_ok w c"
    by (simp_all add: inv_def)
  have f [simp]: "cells ?w = cells w" "microtasks ?w = microtasks w" "timers ?w = timers w"
    "length (promises ?w) = Suc ?n"
    by (simp_all add: new_promise_def)
  have old [simp]: "p < ?n \<Longrightarrow> promises ?w ! p = promises w ! p" for p
    by (simp add: new_promise_def nth_append)
  have new [simp]: "reactions (promises ?w ! ?n) = []"
    by (simp add: new_promise_def)
  have "bounded ?w"
    using b unfolding bounded_def by (auto simp: less_Suc_eq)
  moreover have "cell_ok ?w c" if c: "c < length (cells w)" for c
  proof -
    from b c have wr: "wrapped (cells w ! c) < ?n" by (simp add: bounded_def)
    show ?thesis
    proof (rule cell_okI)
      fix p assume "p < length (promises ?w)"
      then show "subscribed ?w p c = (if p = wrapped (cells ?w ! c) then 1 else 0)"
        using cell_ok_sub [OF ok [OF c], of p] wr
        by (auto simp: less_Suc_eq subscribed_def)
    next
      fix j assume "j \<in> set (microtasks ?w)" "fst j = c"
      then show "fst (snd j) = state (promises ?w ! wrapped (cells ?w ! c))"
        using cell_ok_job [OF ok [OF c], of j] wr by simp
    next
      show "queued ?w c =
        (if state (promises ?w ! wrapped (cells ?w ! c)) \<noteq> Pending \<and>
            status (cells ?w ! c) = ''pending'' then 1 else 0)"
        using cell_ok_queued [OF ok [OF c]] wr by (simp add: queued_def)
    next
      show "status (cells ?w ! c) = ''pending'' \<or>
        status (cells ?w ! c) = ''success'' \<and>
          state (promises ?w ! wrapped (cells ?w ! c)) = Fulfilled (result (cells ?w ! c)) \<or>
        status (cells ?w ! c) = ''error'' \<and>
          state (promises ?w ! wrapped (cells ?w ! c)) = Rejected (result (cells ?w ! c))"
        using cell_ok_status [OF ok [OF c]] wr by simp
    qed
  qed
  ultimately show ?thesis by (simp add: inv_def)
qed

lemma inv_wrap:
  assumes i: "inv w" and p: "p < length (promises w)"
  shows "inv (snd (wrapPromise p w))"
proof -
  let ?w = "snd (wrapPromise p w)"
  let ?n = "length (promises w)"
  let ?m = "length (cells w)"
  from i have b: "bounded w" and ok: "\<And>c. c < ?m \<Longrightarrow> cell_ok w c"
    by (simp_all add: inv_def)
  from b have br: "\<And>p' r. p' < ?n \<Longrightarrow> r \<in> set (reactions (promises w ! p')) \<Longrightarrow>
      fst r < ?m \<and> snd r < ?n"
    and bj: "\<And>j. j \<in> set (microtasks w) \<Longrightarrow>
      fst j < ?m \<and> fst (snd j) \<noteq> Pending \<and> snd (snd j) < ?n"
    and bt: "\<And>t. t \<in> set (timers w) \<Longrightarrow> target (snd t) < ?n"
    and bw: "\<And>c. c < ?m \<Longrightarrow> wrapped (cells w ! c) < ?n"
    by (simp_all add: bounded_def)
  have st: "p' \<le> ?n \<Longrightarrow> state (promises ?w ! p') = (if p' = ?n then Pending else state (promises w ! p'))" for p'
    using wrap_state [OF p] by simp
  have rs: "p' \<le> ?n \<Longrightarrow> reactions (promises ?w ! p') =
     (if p' = p then reactions (promises w ! p) @ [(?m, ?n)]
      else if p' = ?n then [] else reactions (promises w ! p'))" for p'
    using wrap_reactions [OF p] by simp
  have mt: "microtasks ?w = microtasks w @
      (if state (promises w ! p) = Pending then [] else [(?m, state (promises w ! p), ?n)])"
    using wrap_microtasks [OF p] by simp
  have cl: "c < ?m \<Longrightarrow> cells ?w ! c = cells w ! c" for c
    by (simp add: nth_append)
  have nw: "cells ?w ! ?m =
      \<lparr>status = ''pending'', result = Undefined, suspender = ?n, wrapped = p\<rparr>"
    by simp
  have b1: "fst r < length (cells ?w) \<and> snd r < length (promises ?w)"
    if "p' < length (promises ?w)" "r \<in> set (reactions (promises ?w ! p'))" for p' r
  proof -
    from that(1) have le: "p' \<le> ?n" by simp
    show ?thesis
    proof (cases "p' = ?n")
      case True
      with that(2) rs [OF le] p show ?thesis by (simp split: if_splits)
    next
      case False
      with le have lt: "p' < ?n" by simp
      from that(2) rs [OF le] False br [OF lt, of r] show ?thesis
        by (auto split: if_splits)
    qed
  qed
  have b2: "fst j < length (cells ?w) \<and> fst (snd j) \<noteq> Pending \<and>
      snd (snd j) < length (promises ?w)" if "j \<in> set (microtasks ?w)" for j
    using that bj [of j] by (auto simp: mt split: if_splits)
  have b3: "target (snd t) < length (promises ?w)" if "t \<in> set (timers ?w)" for t
    using that bt [of t] by simp
  have b4: "wrapped (cells ?w ! c) < length (promises ?w)" if "c < length (cells ?w)" for c
    using that bw [of c] p by (cases "c = ?m") (simp_all add: nth_append)
  have "bounded ?w"
    unfolding bounded_def using b1 b2 b3 b4 by blast
  moreover have "cell_ok ?w c" if c: "c < length (cells ?w)" for c
  proof (cases "c = ?m")
    case True
    have none: "p' < ?n \<Longrightarrow> length (filter (\<lambda>r. fst r = ?m) (reactions (promises w ! p'))) = 0" for p'
      using br [of p'] by (fastforce simp: filter_empty_conv)
    have nonej: "length (filter (\<lambda>j. fst j = ?m) (microtasks w)) = 0"
      using bj by (fastforce simp: filter_empty_conv)
    show ?thesis unfolding True
    proof (rule cell_okI)
      fix p' assume "p' < length (promises ?w)"
      then have le: "p' \<le> ?n" by simp
      show "subscribed ?w p' ?m = (if p' = wrapped (cells ?w ! ?m) then 1 else 0)"
      proof (cases "p' = ?n")
        case True
        with p show ?thesis by (simp add: subscribed_def rs)
      next
        case False
        with le have "p' < ?n" by simp
        from none [OF this] none [OF p] show ?thesis
          by (simp add: subscribed_def rs [OF le])
      qed
    next
      fix j assume "j \<in> set (microtasks ?w)" "fst j = ?m"
      then show "fst (snd j) = state (promises ?w ! wrapped (cells ?w ! ?m))"
        using bj [of j] p by (auto simp: mt st split: if_splits)
    next
      show "queued ?w ?m =
        (if state (promises ?w ! wrapped (cells ?w ! ?m)) \<noteq> Pending \<and>
            status (cells ?w ! ?m) = ''pending'' then 1 else 0)"
        using nonej p by (simp add: queued_def mt st)
    next
      show "status (cells ?w ! ?m) = ''pending'' \<or>
        status (cells ?w ! ?m) = ''success'' \<and>
          state (promises ?w ! wrapped (cells ?w ! ?m)) = Fulfilled (result (cells ?w ! ?m)) \<or>
        status (cells ?w ! ?m) = ''error'' \<and>
          state (promises ?w ! wrapped (cells ?w ! ?m)) = Rejected (result (cells ?w ! ?m))"
        by simp
    qed
  next
    case False
    with c have c': "c < ?m" by simp
    note wr = bw [OF c']
    then have wle: "wrapped (cells w ! c) \<le> ?n" "wrapped (cells w ! c) \<noteq> ?n" by simp_all
    show ?thesis
    proof (rule cell_okI)
      fix p' assume "p' < length (promises ?w)"
      then have le: "p' \<le> ?n" by simp
      show "subscribed ?w p' c = (if p' = wrapped (cells ?w ! c) then 1 else 0)"
      proof (cases "p' = ?n")
        case True
        with wr p c' show ?thesis by (simp add: subscribed_def rs nth_append)
      next
        case False
        with le have lt: "p' < ?n" by simp
        from cell_ok_sub [OF ok [OF c'] lt] c' False show ?thesis
          by (auto simp add: subscribed_def rs [OF le] nth_append)
      qed
    next
      fix j assume "j \<in> set (microtasks ?w)" "fst j = c"
      then show "fst (snd j) = state (promises ?w ! wrapped (cells ?w ! c))"
        using cell_ok_job [OF ok [OF c'], of j] c' wle
        by (auto simp: mt st nth_append split: if_splits)
    next
      show "queued ?w c =
        (if state (promises ?w ! wrapped (cells ?w ! c)) \<noteq> Pending \<and>
            status (cells ?w ! c) = ''pending'' then 1 else 0)"
        using cell_ok_queued [OF ok [OF c']] c' wle
        by (simp add: queued_def mt st nth_append)
    next
      show "status (cells ?w ! c) = ''pending'' \<or>
        status (cells ?w ! c) = ''success'' \<and>
          state (promises ?w ! wrapped (cells ?w ! c)) = Fulfilled (result (cells ?w ! c)) \<or>
        status (cells ?w ! c) = ''error'' \<and>
          state (promises ?w ! wrapped (cells ?w ! c)) = Rejected (result (cells ?w ! c))"
        using cell_ok_status [OF ok [OF c']] wle c' by (simp add: st nth_append)
    qed
  qed
  ultimately show ?thesis by (simp add: inv_def)
qed


lemma log_fields [simp]:
  "promises (log s i w) = promises w" "cells (log s i w) = cells w"
  "microtasks (log s i w) = microtasks w" "timers (log s i w) = timers w"
  "clock (log s i w) = clock w"
  by (simp_all add: log_def)

lemma setTimeout_fields [simp]:
  "promises (setTimeout cb d w) = promises w" "cells (setTimeout cb d w) = cells w"
  "microtasks (setTimeout cb d w) = microtasks w"
  "timers (setTimeout cb d w) = timers w @ [(clock w + d, cb)]"
  "clock (setTimeout cb d w) = clock w"
  by (simp_all add: setTimeout_def)

lemma new_promise_fields [simp]:
  "fst (new_promise w) = length (promises w)"
  "promises (snd (new_promise w)) = promises w @ [\<lparr>state = Pending, reactions = []\<rparr>]"
  "cells (snd (new_promise w)) = cells w"
  "microtasks (snd (new_promise w)) = microtasks w" "timers (snd (new_promise w)) = timers w"
  "clock (snd (new_promise w)) = clock w"
  by (simp_all add: new_promise_def)

lemma inv_log: "inv w \<Longrightarrow> inv (log s i w)"
  by (erule inv_frame) simp_all

lemma inv_setTimeout:
  assumes "inv w" and "target cb < length (promises w)"
  shows "inv (setTimeout cb d w)"
proof -
  let ?w = "setTimeout cb d w"
  from assms have "bounded ?w"
    unfolding inv_def bounded_def by auto
  moreover have "cell_ok ?w c" if "cell_ok w c" for c
    using that by (simp add: cell_ok_def subscribed_def queued_def)
  ultimately show ?thesis using assms by (simp add: inv_def)
qed

lemma fetchReviewer_eq:
  "fetchReviewer i w =
    (length (promises w),
     setTimeout (Fetched_reviewer (length (promises w)) i) 300
       (snd (new_promise (log ''fetching code reviewer...'' i w))))"
  by (simp add: fetchReviewer_def split: prod.splits) (simp add: new_promise_def)

lemma fetchCommentsForReviewer_eq:
  "fetchCommentsForReviewer i w =
    (length (promises w),
     setTimeout (Fetched_comments (length (promises w)) i) 800
       (snd (new_promise (log ''fetching comments...'' i w))))"
  by (simp add: fetchCommentsForReviewer_def split: prod.splits) (simp add: new_promise_def)

lemma fetchUsersResponseToReviewer_eq:
  "fetchUsersResponseToReviewer i w =
    (length (promises w),
     setTimeout (Fetched_responses (length (promises w)) i) 1500
       (snd (new_promise (log ''fetching responses...'' i w))))"
  by (simp add: fetchUsersResponseToReviewer_def split: prod.splits) (simp add: new_promise_def)

lemma inv_fetchReviewer: "inv w \<Longrightarrow> inv (snd (fetchReviewer i w))"
  by (simp add: fetchReviewer_eq inv_setTimeout inv_new_promise inv_log)

lemma inv_fetchCommentsForReviewer: "inv w \<Longrightarrow> inv (snd (fetchCommentsForReviewer i w))"
  by (simp add: fetchCommentsForReviewer_eq inv_setTimeout inv_new_promise inv_log)

lemma inv_fetchUsersResponseToReviewer:
  "inv w \<Longrightarrow> inv (snd (fetchUsersResponseToReviewer i w))"
  by (simp add: fetchUsersResponseToReviewer_eq inv_setTimeout inv_new_promise inv_log)

lemma fetch_lengths [simp]:
  "length (promises (snd (fetchReviewer i w))) = Suc (length (promises w))"
  "length (promises (snd (fetchCommentsForReviewer i w))) = Suc (length (promises w))"
  "length (promises (snd (fetchUsersResponseToReviewer i w))) = Suc (length (promises w))"
  "cells (snd (fetchReviewer i w)) = cells w"
  "cells (snd (fetchCommentsForReviewer i w)) = cells w"
  "cells (snd (fetchUsersResponseToReviewer i w)) = cells w"
  by (simp_all add: fetchReviewer_eq fetchCommentsForReviewer_eq fetchUsersResponseToReviewer_eq)

text \<open>The six steps of building a bundle, one after the other.\<close>

definition started :: "int \<Rightarrow> world \<Rightarrow> world" where
  "started i w =
    snd (fetchUsersResponseToReviewer i
      (snd (fetchCommentsForReviewer i (snd (fetchReviewer i w)))))"

lemma fetchCodeReviewerData_eq:
  "fetchCodeReviewerData i w =
    (\<lparr>bundle_id = i, reviewer = length (cells w), comments = Suc (length (cells w)),
      responses = Suc (Suc (length (cells w)))\<rparr>,
     snd (wrapPromise (Suc (Suc (length (promises w))))
       (snd (wrapPromise (Suc (length (promises w)))
         (snd (wrapPromise (length (promises w)) (started i w)))))))"
  by (simp add: fetchCodeReviewerData_def started_def split: prod.splits)
     (simp add: fetchReviewer_eq fetchCommentsForReviewer_eq fetchUsersResponseToReviewer_eq
        prod_eq_iff)

lemma started_fields [simp]:
  "length (promises (started i w)) = Suc (Suc (Suc (length (promises w))))"
  "cells (started i w) = cells w"
  by (simp_all add: started_def)

lemma inv_started: "inv w \<Longrightarrow> inv (started i w)"
  by (simp add: started_def inv_fetchReviewer inv_fetchCommentsForReviewer
      inv_fetchUsersResponseToReviewer)

lemma inv_fetchCodeReviewerData: "inv w \<Longrightarrow> inv (snd (fetchCodeReviewerData i w))"
  by (simp add: fetchCodeReviewerData_eq inv_wrap inv_started)

lemma inv_fire: "inv w \<Longrightarrow> inv (fire k w)"
proof -
  assume i: "inv w"
  have "inv (run_callback cb (w\<lparr>timers := take k (timers w) @ drop (Suc k) (timers w)\<rparr>))" for cb
  proof -
    have "set (take k (timers w) @ drop (Suc k) (timers w)) \<subseteq> set (timers w)"
      using set_take_subset [of k "timers w"] set_drop_subset [of "Suc k" "timers w"] by auto
    then have "inv (w\<lparr>timers := take k (timers w) @ drop (Suc k) (timers w)\<rparr>)"
      by (intro inv_frame [OF i]) simp_all
    then show ?thesis
      by (cases cb) (simp_all add: resolve_def inv_settle inv_log)
  qed
  with i show ?thesis by (simp add: fire_def)
qed

lemma inv_tick: "inv w \<Longrightarrow> inv (w\<lparr>clock := n\<rparr>)"
  by (erule inv_frame) simp_all

lemma inv_step: "inv w \<Longrightarrow> inv (step a w)"
  by (cases a)
     (simp_all add: inv_tick inv_fire inv_microtask inv_new_promise resolve_def reject_def
        inv_settle inv_wrap read_def Let_def inv_fetchCodeReviewerData)

lemma inv_exec: "inv w \<Longrightarrow> inv (exec as w)"
  by (induction as arbitrary: w) (simp_all add: inv_step)

lemma inv_reachable: "inv (exec as empty_world)"
  by (simp add: inv_exec inv_empty)


subsection \<open>How one step changes one closure\<close>

lemma fire_cells [simp]: "cells (fire k w) = cells w"
proof -
  have "cells (run_callback cb w') = cells w'" for cb w'
    by (cases cb) (simp_all add: resolve_def)
  then show ?thesis by (simp add: fire_def)
qed

lemma fetch_cells:
  "cells (snd (fetchCodeReviewerData i w)) = cells w @
    [\<lparr>status = ''pending'', result = Undefined,
      suspender = Suc (Suc (Suc (length (promises w)))), wrapped = length (promises w)\<rparr>,
     \<lparr>status = ''pending'', result = Undefined,
      suspender = Suc (Suc (Suc (Suc (length (promises w))))),
      wrapped = Suc (length (promises w))\<rparr>,
     \<lparr>status = ''pending'', result = Undefined,
      suspender = Suc (Suc (Suc (Suc (Suc (length (promises w)))))),
      wrapped = Suc (Suc (length (promises w)))\<rparr>]"
  by (simp add: fetchCodeReviewerData_eq)

lemma microtask_cells:
  assumes i: "inv w" and c: "c < length (cells w)"
  shows "cells (microtask w) ! c = cells w ! c \<or>
     (status (cells w ! c) = ''pending'' \<and>
      (\<exists>s. s \<noteq> Pending \<and> s = state (promises w ! wrapped (cells w ! c)) \<and>
        cells (microtask w) ! c =
          (cells w ! c)\<lparr>status := status_of s, result := value_of s\<rparr>))"
proof (cases "microtasks w")
  case Nil
  then show ?thesis by (simp add: microtask_def)
next
  case (Cons j js)
  obtain c' s q where j: "j = (c', s, q)" by (cases j)
  from i Cons j have s: "s \<noteq> Pending" by (simp add: inv_def bounded_def)
  have eq: "cells (microtask w) = (cells w)[c' := (cells w ! c')\<lparr>status := status_of s, result := value_of s\<rparr>]"
    using Cons j by (simp add: microtask_def run_job_written [OF s] written_def)
  show ?thesis
  proof (cases "c' = c")
    case False
    then show ?thesis by (simp add: eq)
  next
    case True
    from i c have ok: "cell_ok w c" by (simp add: inv_def)
    from cell_ok_job [OF ok, of j] Cons j True
    have st: "state (promises w ! wrapped (cells w ! c)) = s" by simp
    from Cons j True have "queued w c \<noteq> 0" by (simp add: queued_def)
    with cell_ok_queued [OF ok] have "status (cells w ! c) = ''pending''"
      by (simp split: if_splits)
    with s st c True show ?thesis by (simp add: eq)
  qed
qed

lemma step_cells:
  assumes i: "inv w" and c: "c < length (cells w)"
  shows "c < length (cells (step a w)) \<and>
    (cells (step a w) ! c = cells w ! c \<or>
     (status (cells w ! c) = ''pending'' \<and>
      (\<exists>s. s \<noteq> Pending \<and> s = state (promises w ! wrapped (cells w ! c)) \<and>
        cells (step a w) ! c =
          (cells w ! c)\<lparr>status := status_of s, result := value_of s\<rparr>)))"
proof (cases a)
  case Microtask
  have "length (cells (microtask w)) = length (cells w)"
    by (cases "microtasks w")
       (auto simp: microtask_def run_job_def resolve_def on_success_def on_error_def
          split: pstate.splits)
  with microtask_cells [OF i c] c Microtask show ?thesis by simp
qed (use c in \<open>simp_all add: resolve_def reject_def read_def Let_def nth_append fetch_cells\<close>)

lemma exec_cells:
  assumes "inv w" and "c < length (cells w)"
  shows "c < length (cells (exec as w)) \<and>
    wrapped (cells (exec as w) ! c) = wrapped (cells w ! c) \<and>
    suspender (cells (exec as w) ! c) = suspender (cells w ! c) \<and>
    (status (cells w ! c) \<noteq> ''pending'' \<longrightarrow> cells (exec as w) ! c = cells w ! c)"
  using assms
proof (induction as arbitrary: w)
  case Nil
  then show ?case by simp
next
  case (Cons a as)
  from step_cells [OF Cons.prems, of a]
  have c': "c < length (cells (step a w))"
    and k: "wrapped (cells (step a w) ! c) = wrapped (cells w ! c)"
      "suspender (cells (step a w) ! c) = suspender (cells w ! c)"
      "status (cells w ! c) \<noteq> ''pending'' \<longrightarrow> cells (step a w) ! c = cells w ! c"
    by auto
  from Cons.IH [OF inv_step [OF Cons.prems(1)] c'] k show ?case by auto
qed


lemma read_snd [simp]: "snd (read c w) = w"
  by (simp add: read_def Let_def)

lemma exec_append: "exec (as @ bs) w = exec bs (exec as w)"
  by (induction as arbitrary: w) simp_all

lemma exec_reads: "exec (replicate n (Read c)) w = w"
  by (induction n) simp_all

lemma reachable_cell:
  "c < length (cells (exec as empty_world)) \<Longrightarrow> cell_ok (exec as empty_world) c"
  using inv_reachable [of as] by (simp add: inv_def)

text \<open>
  C8. In every world the program can reach, the \<^verbatim>\<open>status\<close> of every closure is one of
  the three strings \<^verbatim>\<open>"pending"\<close>, \<^verbatim>\<open>"success"\<close>, \<^verbatim>\<open>"error"\<close>, so
  \<^verbatim>\<open>read()\<close> never leaves its if/else-if chain by the fall-through; and the fall-through
  is taken exactly for a status outside these three.
\<close>

theorem read_dispatch_exhaustive:
  "c < length (cells (exec as empty_world)) \<Longrightarrow>
   (status (cells (exec as empty_world) ! c) = ''pending'' \<or>
    status (cells (exec as empty_world) ! c) = ''success'' \<or>
    status (cells (exec as empty_world) ! c) = ''error'') \<and>
   fst (read c (exec as empty_world)) \<noteq> Fell_through \<and>
   (\<forall>w c'. fst (read c' w) = Fell_through \<longleftrightarrow>
      \<not> (status (cells w ! c') = ''pending'' \<or> status (cells w ! c') = ''success'' \<or>
         status (cells w ! c') = ''error''))"
proof -
  assume "c < length (cells (exec as empty_world))"
  from cell_ok_status [OF reachable_cell [OF this]]
  have s: "status (cells (exec as empty_world) ! c) = ''pending'' \<or>
    status (cells (exec as empty_world) ! c) = ''success'' \<or>
    status (cells (exec as empty_world) ! c) = ''error''"
    by blast
  have f: "fst (read c' w) = Fell_through \<longleftrightarrow>
      \<not> (status (cells w ! c') = ''pending'' \<or> status (cells w ! c') = ''success'' \<or>
         status (cells w ! c') = ''error'')" for w c'
    by (simp add: read_def Let_def)
  from s f show ?thesis by blast
qed

theorem read_dispatch_exhaustive_witness:
  "0 < length (cells (exec [Create, Wrap 0, Reject 0 (Failure ''boom''), Microtask] empty_world)) \<and>
   status (cells (exec [Create, Wrap 0, Reject 0 (Failure ''boom''), Microtask] empty_world) ! 0)
     = ''error'' \<and>
   fst (read 0 (exec [Create, Wrap 0, Reject 0 (Failure ''boom''), Microtask] empty_world))
     = Thrown (Failure ''boom'') \<and>
   fst (read 0 (exec [Create, Wrap 0, Reject 0 (Failure ''boom''), Microtask] empty_world))
     \<noteq> Fell_through"
  using read_dispatch_exhaustive
    [of 0 "[Create, Wrap 0, Reject 0 (Failure ''boom''), Microtask]"]
  by (simp add: empty_world_def new_promise_def wrapPromise_def then_handlers_def reject_def
      resolve_def settle_def microtask_def run_job_def on_error_def jobs_for_def read_def
      Let_def)


lemma read_by_status:
  "read c w =
    (if status (cells w ! c) = ''pending'' then (Thrown_promise (suspender (cells w ! c)), w)
     else if status (cells w ! c) = ''error'' then (Thrown (result (cells w ! c)), w)
     else if status (cells w ! c) = ''success'' then (Returned (result (cells w ! c)), w)
     else (Fell_through, w))"
  by (simp add: read_def Let_def)

lemma wrapped_cell:
  assumes p: "p < length (promises (exec as empty_world))"
  shows "fst (wrapPromise p (exec as empty_world)) <
           length (cells (exec bs (snd (wrapPromise p (exec as empty_world))))) \<and>
    inv (exec bs (snd (wrapPromise p (exec as empty_world)))) \<and>
    wrapped (cells (exec bs (snd (wrapPromise p (exec as empty_world))))
       ! fst (wrapPromise p (exec as empty_world))) = p \<and>
    suspender (cells (exec bs (snd (wrapPromise p (exec as empty_world))))
       ! fst (wrapPromise p (exec as empty_world))) = length (promises (exec as empty_world))"
proof -
  let ?u = "exec as empty_world"
  let ?v = "snd (wrapPromise p ?u)"
  have i1: "inv ?v" using inv_wrap [OF inv_reachable p] .
  have c: "length (cells ?u) < length (cells ?v)" by simp
  from exec_cells [OF i1 c, of bs] inv_exec [OF i1, of bs] show ?thesis by simp
qed

text \<open>Small concrete runs, evaluated once.\<close>

lemma run_created: "exec [Create] empty_world =
    \<lparr>clock = 0, promises = [\<lparr>state = Pending, reactions = []\<rparr>], cells = [], timers = [],
     microtasks = [], console = []\<rparr>"
  by (simp add: empty_world_def new_promise_def wrapPromise_def then_handlers_def reject_def
      resolve_def settle_def microtask_def run_job_def on_error_def on_success_def jobs_for_def
      Let_def)

lemma run_resolved: "exec [Create, Wrap 0, Resolve 0 (Comments [])] empty_world =
    \<lparr>clock = 0,
     promises = [\<lparr>state = Fulfilled (Comments []), reactions = [(0, 1)]\<rparr>,
                 \<lparr>state = Pending, reactions = []\<rparr>],
     cells = [\<lparr>status = ''pending'', result = Undefined, suspender = 1, wrapped = 0\<rparr>],
     timers = [], microtasks = [(0, Fulfilled (Comments []), 1)], console = []\<rparr>"
  by (simp add: empty_world_def new_promise_def wrapPromise_def then_handlers_def reject_def
      resolve_def settle_def microtask_def run_job_def on_error_def on_success_def jobs_for_def
      Let_def)

lemma run_success: "exec [Create, Wrap 0, Resolve 0 (Comments []), Microtask] empty_world =
    \<lparr>clock = 0,
     promises = [\<lparr>state = Fulfilled (Comments []), reactions = [(0, 1)]\<rparr>,
                 \<lparr>state = Fulfilled Undefined, reactions = []\<rparr>],
     cells = [\<lparr>status = ''success'', result = Comments [], suspender = 1, wrapped = 0\<rparr>],
     timers = [], microtasks = [], console = []\<rparr>"
  by (simp add: empty_world_def new_promise_def wrapPromise_def then_handlers_def reject_def
      resolve_def settle_def microtask_def run_job_def on_error_def on_success_def jobs_for_def
      Let_def)

lemma run_error:
  "exec [Reject 0 (Failure ''boom''), Microtask] (snd (wrapPromise 0 (exec [Create] empty_world))) =
    \<lparr>clock = 0,
     promises = [\<lparr>state = Rejected (Failure ''boom''), reactions = [(0, 1)]\<rparr>,
                 \<lparr>state = Fulfilled Undefined, reactions = []\<rparr>],
     cells = [\<lparr>status = ''error'', result = Failure ''boom'', suspender = 1, wrapped = 0\<rparr>],
     timers = [], microtasks = [], console = []\<rparr>"
  by (simp add: empty_world_def new_promise_def wrapPromise_def then_handlers_def reject_def
      resolve_def settle_def microtask_def run_job_def on_error_def on_success_def jobs_for_def
      Let_def)

text \<open>
  C1. Let \<open>p\<close> be any promise of any reachable world, \<open>c\<close> the resource that
  \<^verbatim>\<open>wrapPromise(p)\<close> returns, and \<open>w\<close> any world reached afterwards. The closure of
  \<open>c\<close> still wraps \<open>p\<close> and holds the promise that \<^verbatim>\<open>then\<close> returned as
  \<^verbatim>\<open>suspender\<close>. While \<open>p\<close> is pending, and whenever \<^verbatim>\<open>status\<close> is
  \<^verbatim>\<open>"pending"\<close>, \<^verbatim>\<open>read()\<close> throws that suspender. When \<^verbatim>\<open>status\<close> is
  \<^verbatim>\<open>"error"\<close>, \<open>p\<close> was rejected and \<^verbatim>\<open>read()\<close> throws the rejection reason itself. When
  \<^verbatim>\<open>status\<close> is \<^verbatim>\<open>"success"\<close>, \<open>p\<close> was fulfilled and \<^verbatim>\<open>read()\<close> returns the
  fulfilment value. In each case the world is left as it was. Once the reaction jobs have
  run (the microtask queue is empty), a rejected \<open>p\<close> makes \<^verbatim>\<open>read()\<close> throw its
  reason and a fulfilled \<open>p\<close> makes it return its value.
\<close>

theorem wrapPromise_read:
  "p < length (promises (exec as empty_world)) \<Longrightarrow>
   (let w0 = exec as empty_world;
        c = fst (wrapPromise p w0);
        w = exec bs (snd (wrapPromise p w0));
        k = cells w ! c
    in wrapped k = p \<and> suspender k = length (promises w0) \<and>
       (state (promises w ! p) = Pending \<longrightarrow> read c w = (Thrown_promise (suspender k), w)) \<and>
       (status k = ''pending'' \<longrightarrow> read c w = (Thrown_promise (suspender k), w)) \<and>
       (status k = ''error'' \<longrightarrow>
          state (promises w ! p) = Rejected (result k) \<and> read c w = (Thrown (result k), w)) \<and>
       (status k = ''success'' \<longrightarrow>
          state (promises w ! p) = Fulfilled (result k) \<and> read c w = (Returned (result k), w)) \<and>
       (microtasks w = [] \<longrightarrow>
          (\<forall>e. state (promises w ! p) = Rejected e \<longrightarrow> read c w = (Thrown e, w)) \<and>
          (\<forall>v. state (promises w ! p) = Fulfilled v \<longrightarrow> read c w = (Returned v, w))))"
proof -
  assume p: "p < length (promises (exec as empty_world))"
  let ?u = "exec as empty_world"
  let ?c = "fst (wrapPromise p ?u)"
  let ?w = "exec bs (snd (wrapPromise p ?u))"
  let ?k = "cells ?w ! ?c"
  from wrapped_cell [OF p, of bs]
  have c: "?c < length (cells ?w)" and i: "inv ?w" and wr: "wrapped ?k = p"
    and su: "suspender ?k = length (promises ?u)"
    by simp_all
  from i c have ok: "cell_ok ?w ?c" by (simp add: inv_def)
  note st = cell_ok_status [OF ok, unfolded wr]
  note qu = cell_ok_queued [OF ok, unfolded wr]
  have 1: "state (promises ?w ! p) = Pending \<longrightarrow> read ?c ?w = (Thrown_promise (suspender ?k), ?w)"
    using st by (auto simp: read_by_status)
  have 2: "status ?k = ''pending'' \<longrightarrow> read ?c ?w = (Thrown_promise (suspender ?k), ?w)"
    by (simp add: read_by_status)
  have 3: "status ?k = ''error'' \<longrightarrow>
          state (promises ?w ! p) = Rejected (result ?k) \<and> read ?c ?w = (Thrown (result ?k), ?w)"
    using st by (auto simp: read_by_status)
  have 4: "status ?k = ''success'' \<longrightarrow>
          state (promises ?w ! p) = Fulfilled (result ?k) \<and> read ?c ?w = (Returned (result ?k), ?w)"
    using st by (auto simp: read_by_status)
  have 5: "microtasks ?w = [] \<longrightarrow>
          (\<forall>e. state (promises ?w ! p) = Rejected e \<longrightarrow> read ?c ?w = (Thrown e, ?w)) \<and>
          (\<forall>v. state (promises ?w ! p) = Fulfilled v \<longrightarrow> read ?c ?w = (Returned v, ?w))"
  proof
    assume "microtasks ?w = []"
    then have "queued ?w ?c = 0" by (simp add: queued_def)
    with qu have np: "state (promises ?w ! p) = Pending \<or> status ?k \<noteq> ''pending''"
      by (simp split: if_splits)
    with st show "(\<forall>e. state (promises ?w ! p) = Rejected e \<longrightarrow> read ?c ?w = (Thrown e, ?w)) \<and>
          (\<forall>v. state (promises ?w ! p) = Fulfilled v \<longrightarrow> read ?c ?w = (Returned v, ?w))"
      by (auto simp: read_by_status)
  qed
  from wr su 1 2 3 4 5 show ?thesis unfolding Let_def by blast
qed

theorem wrapPromise_read_witness:
  "0 < length (promises (exec [Create] empty_world)) \<and>
   fst (wrapPromise 0 (exec [Create] empty_world)) = 0 \<and>
   status (cells (exec [Reject 0 (Failure ''boom''), Microtask]
             (snd (wrapPromise 0 (exec [Create] empty_world)))) ! 0) = ''error'' \<and>
   state (promises (exec [Reject 0 (Failure ''boom''), Microtask]
             (snd (wrapPromise 0 (exec [Create] empty_world)))) ! 0) = Rejected (Failure ''boom'') \<and>
   read 0 (exec [Reject 0 (Failure ''boom''), Microtask]
             (snd (wrapPromise 0 (exec [Create] empty_world)))) =
     (Thrown (Failure ''boom''),
      exec [Reject 0 (Failure ''boom''), Microtask]
             (snd (wrapPromise 0 (exec [Create] empty_world))))"
proof -
  have h: "0 < length (promises (exec [Create] empty_world))"
    unfolding run_created by simp
  have c: "fst (wrapPromise 0 (exec [Create] empty_world)) = 0"
    unfolding run_created by simp
  have e: "status (cells (exec [Reject 0 (Failure ''boom''), Microtask]
             (snd (wrapPromise 0 (exec [Create] empty_world)))) ! 0) = ''error''"
    "result (cells (exec [Reject 0 (Failure ''boom''), Microtask]
             (snd (wrapPromise 0 (exec [Create] empty_world)))) ! 0) = Failure ''boom''"
    unfolding run_error by simp_all
  from wrapPromise_read [OF h, of "[Reject 0 (Failure ''boom''), Microtask]"] c e h
  show ?thesis unfolding Let_def by simp
qed

text \<open>
  C3. In every reachable world and for every closure \<open>c\<close> of it, one step of the
  program either leaves the closure as it is or takes its \<^verbatim>\<open>status\<close> from
  \<^verbatim>\<open>"pending"\<close> to \<^verbatim>\<open>"success"\<close> or \<^verbatim>\<open>"error"\<close>; the only step that writes is the
  reaction job of the wrapped promise, which stores that promise's outcome. A closure whose
  status is no longer \<^verbatim>\<open>"pending"\<close> never changes again, whatever happens. The status
  gates the result: with \<^verbatim>\<open>"success"\<close> the result is the fulfilment value of the wrapped
  promise, with \<^verbatim>\<open>"error"\<close> its rejection reason. The handlers that write the closure are
  registered once, on the wrapped promise and on no other, and a job that runs them is queued
  exactly while that promise is settled and the status still \<^verbatim>\<open>"pending"\<close>: there is one
  write, and none after it.
\<close>

theorem status_monotonic:
  "c < length (cells (exec as empty_world)) \<Longrightarrow>
   (let w = exec as empty_world; w' = step a w; k = cells w ! c; k' = cells w' ! c
    in c < length (cells w') \<and> wrapped k' = wrapped k \<and> suspender k' = suspender k \<and>
       (k' = k \<or>
        status k = ''pending'' \<and> (status k' = ''success'' \<or> status k' = ''error'') \<and>
        a = Microtask \<and>
        k' = k\<lparr>status := status_of (state (promises w ! wrapped k)),
               result := value_of (state (promises w ! wrapped k))\<rparr>) \<and>
       (status k \<noteq> ''pending'' \<longrightarrow> (\<forall>bs. cells (exec bs w) ! c = k)) \<and>
       (status k = ''pending'' \<or> status k = ''success'' \<or> status k = ''error'') \<and>
       (status k = ''success'' \<longrightarrow> state (promises w ! wrapped k) = Fulfilled (result k)) \<and>
       (status k = ''error'' \<longrightarrow> state (promises w ! wrapped k) = Rejected (result k)) \<and>
       (\<forall>p < length (promises w). subscribed w p c = (if p = wrapped k then 1 else 0)) \<and>
       queued w c =
         (if state (promises w ! wrapped k) \<noteq> Pending \<and> status k = ''pending'' then 1 else 0))"
proof -
  assume c: "c < length (cells (exec as empty_world))"
  let ?w = "exec as empty_world"
  let ?w' = "step a ?w"
  let ?k = "cells ?w ! c"
  let ?k' = "cells ?w' ! c"
  note i = inv_reachable [of as]
  note ok = reachable_cell [OF c]
  from step_cells [OF i c, of a]
  have c': "c < length (cells ?w')"
    and ch: "?k' = ?k \<or> (status ?k = ''pending'' \<and>
      (\<exists>s. s \<noteq> Pending \<and> s = state (promises ?w ! wrapped ?k) \<and>
        ?k' = ?k\<lparr>status := status_of s, result := value_of s\<rparr>))"
    by simp_all
  from ch have id: "wrapped ?k' = wrapped ?k" "suspender ?k' = suspender ?k" by auto
  have only: "?k' \<noteq> ?k \<Longrightarrow> a = Microtask"
    using c by (cases a) (simp_all add: resolve_def reject_def nth_append fetch_cells)
  have mono: "?k' = ?k \<or>
        status ?k = ''pending'' \<and> (status ?k' = ''success'' \<or> status ?k' = ''error'') \<and>
        a = Microtask \<and>
        ?k' = ?k\<lparr>status := status_of (state (promises ?w ! wrapped ?k)),
               result := value_of (state (promises ?w ! wrapped ?k))\<rparr>"
  proof (cases "?k' = ?k")
    case True
    then show ?thesis by simp
  next
    case False
    with ch obtain s where s: "s \<noteq> Pending" "s = state (promises ?w ! wrapped ?k)"
      "?k' = ?k\<lparr>status := status_of s, result := value_of s\<rparr>" "status ?k = ''pending''"
      by auto
    from status_of_cases [OF s(1)] s only [OF False] show ?thesis by auto
  qed
  have stable: "status ?k \<noteq> ''pending'' \<longrightarrow> (\<forall>bs. cells (exec bs ?w) ! c = ?k)"
    using exec_cells [OF i c] by simp
  from c' id mono stable cell_ok_status [OF ok] cell_ok_sub [OF ok] cell_ok_queued [OF ok]
  show ?thesis unfolding Let_def by (intro conjI) (auto simp del: step.simps)
qed


theorem status_monotonic_witness:
  "0 < length (cells (exec [Create, Wrap 0, Resolve 0 (Comments [])] empty_world)) \<and>
   status (cells (exec [Create, Wrap 0, Resolve 0 (Comments [])] empty_world) ! 0) = ''pending'' \<and>
   queued (exec [Create, Wrap 0, Resolve 0 (Comments [])] empty_world) 0 = 1 \<and>
   status (cells (step Microtask (exec [Create, Wrap 0, Resolve 0 (Comments [])] empty_world)) ! 0)
     = ''success'' \<and>
   cells (step Microtask (exec [Create, Wrap 0, Resolve 0 (Comments [])] empty_world)) ! 0 =
     (cells (exec [Create, Wrap 0, Resolve 0 (Comments [])] empty_world) ! 0)
       \<lparr>status := ''success'', result := Comments []\<rparr>"
proof -
  let ?w = "exec [Create, Wrap 0, Resolve 0 (Comments [])] empty_world"
  have h: "0 < length (cells ?w)" unfolding run_resolved by simp
  have s: "status (cells ?w ! 0) = ''pending''" "wrapped (cells ?w ! 0) = 0"
    "state (promises ?w ! 0) = Fulfilled (Comments [])"
    unfolding run_resolved by simp_all
  have "step Microtask ?w = exec [Create, Wrap 0, Resolve 0 (Comments []), Microtask] empty_world"
    by simp
  then have n: "cells (step Microtask ?w) ! 0 \<noteq> cells ?w ! 0"
    unfolding run_success run_resolved by simp
  from status_monotonic [OF h, of Microtask] n s h
  show ?thesis unfolding Let_def by simp
qed

section \<open>Proofs: a promise that a timer will fulfil\<close>

fun payload :: "callback \<Rightarrow> val" where
  "payload (Fetched_reviewer p i) = find_reviewer i"
| "payload (Fetched_comments p i) = comments_for i"
| "payload (Fetched_responses p i) = responses_for i"

lemma run_callback_settle:
  "\<exists>s i. run_callback cb w = settle (target cb) (Fulfilled (payload cb)) (log s i w)"
  by (cases cb) (auto simp: resolve_def)

text \<open>
  Promise \<open>p\<close> is scheduled for value \<open>v\<close> at time \<open>d\<close>: every timer that resolves it is
  due at \<open>d\<close> and carries \<open>v\<close>, no \<^verbatim>\<open>then\<close> returned it, and it is either pending with
  such a timer waiting, or fulfilled with \<open>v\<close> at a time not before \<open>d\<close>.
\<close>

definition scheduled :: "world \<Rightarrow> nat \<Rightarrow> nat \<Rightarrow> val \<Rightarrow> bool" where
  "scheduled w p d v \<longleftrightarrow>
    p < length (promises w) \<and>
    (\<forall>t \<in> set (timers w). target (snd t) = p \<longrightarrow> fst t = d \<and> payload (snd t) = v) \<and>
    (\<forall>p' < length (promises w). \<forall>r \<in> set (reactions (promises w ! p')). snd r \<noteq> p) \<and>
    (\<forall>j \<in> set (microtasks w). snd (snd j) \<noteq> p) \<and>
    (state (promises w ! p) = Pending \<and> (\<exists>t \<in> set (timers w). target (snd t) = p) \<or>
     state (promises w ! p) = Fulfilled v \<and> d \<le> clock w)"

lemma scheduled_frame:
  assumes "scheduled w p d v" and "promises w' = promises w"
    and "microtasks w' = microtasks w" and "timers w' = timers w" and "clock w \<le> clock w'"
  shows "scheduled w' p d v"
  using assms unfolding scheduled_def by auto

lemma scheduled_settle_other:
  assumes s: "scheduled w p d v" and ne: "p' \<noteq> p"
  shows "scheduled (settle p' st w) p d v"
proof (cases "fires p' st w")
  case False
  with s show ?thesis by (simp add: settle_idle)
next
  case True
  then have p': "p' < length (promises w)" by (simp add: fires_def)
  from s p' have r: "\<forall>r \<in> set (reactions (promises w ! p')). snd r \<noteq> p"
    by (simp add: scheduled_def)
  from s ne r show ?thesis
    unfolding scheduled_def
    by (simp add: settle_fires [OF True] settle_state ball_jobs_for ball_Un)
qed

lemma scheduled_settle_self:
  assumes s: "scheduled w p d v" and d: "d \<le> clock w"
  shows "scheduled (settle p (Fulfilled v) w) p d v"
proof (cases "fires p (Fulfilled v) w")
  case False
  with s show ?thesis by (simp add: settle_idle)
next
  case True
  from s have p: "p < length (promises w)" by (simp add: scheduled_def)
  from s p have r: "\<forall>r \<in> set (reactions (promises w ! p)). snd r \<noteq> p"
    by (simp add: scheduled_def)
  from s d r True show ?thesis
    unfolding scheduled_def
    by (simp add: settle_fires [OF True] settle_state ball_jobs_for ball_Un)
qed

lemma scheduled_new_promise:
  assumes "scheduled w p d v"
  shows "scheduled (snd (new_promise w)) p d v"
  using assms unfolding scheduled_def
  by (auto simp: nth_append less_Suc_eq)

lemma scheduled_setTimeout:
  assumes "scheduled w p d v" and "target cb \<noteq> p"
  shows "scheduled (setTimeout cb n w) p d v"
  using assms unfolding scheduled_def by auto

lemma scheduled_wrap:
  assumes s: "scheduled w p d v" and p': "p' < length (promises w)"
  shows "scheduled (snd (wrapPromise p' w)) p d v"
proof -
  let ?w = "snd (wrapPromise p' w)"
  from s have p: "p < length (promises w)" by (simp add: scheduled_def)
  have r: "snd r \<noteq> p" if "q < length (promises ?w)" "r \<in> set (reactions (promises ?w ! q))" for q r
  proof -
    from that(1) have le: "q \<le> length (promises w)" by simp
    from s have old: "\<And>q r. q < length (promises w) \<Longrightarrow>
        r \<in> set (reactions (promises w ! q)) \<Longrightarrow> snd r \<noteq> p"
      by (simp add: scheduled_def)
    show ?thesis
    proof (cases "q = length (promises w)")
      case True
      with that(2) wrap_reactions [OF p' le] p' show ?thesis by (simp split: if_splits)
    next
      case False
      with le have lt: "q < length (promises w)" by simp
      from that(2) wrap_reactions [OF p' le] False old [OF lt, of r] old [OF p', of r] p
      show ?thesis by (auto split: if_splits)
    qed
  qed
  from p have st: "state (promises ?w ! p) = state (promises w ! p)"
    using wrap_state [OF p', of p] by simp
  from s p have j: "\<forall>j \<in> set (microtasks ?w). snd (snd j) \<noteq> p"
    by (auto simp: wrap_microtasks [OF p'] scheduled_def)
  from s r st j p show ?thesis
    unfolding scheduled_def by simp
qed

lemma in_set_remove_nth:
  assumes "x \<in> set xs" and "x \<noteq> xs ! k"
  shows "x \<in> set (take k xs @ drop (Suc k) xs)"
proof -
  from assms(1) obtain i where i: "i < length xs" "xs ! i = x"
    by (auto simp: in_set_conv_nth)
  with assms(2) have ne: "i \<noteq> k" by auto
  show ?thesis
  proof (cases "i < k")
    case True
    with i have "x \<in> set (take k xs)"
      by (auto simp: in_set_conv_nth intro!: exI [of _ i])
    then show ?thesis by simp
  next
    case False
    with ne have "Suc k \<le> i" by simp
    with i have "x \<in> set (drop (Suc k) xs)"
      by (auto simp: in_set_conv_nth intro!: exI [of _ "i - Suc k"])
    then show ?thesis by simp
  qed
qed

lemma scheduled_fire:
  assumes s: "scheduled w p d v"
  shows "scheduled (fire k w) p d v"
proof (cases "k < length (timers w) \<and> fst (timers w ! k) \<le> clock w")
  case False
  with s show ?thesis by (auto simp: fire_def)
next
  case True
  let ?t = "timers w ! k"
  let ?w = "w\<lparr>timers := take k (timers w) @ drop (Suc k) (timers w)\<rparr>"
  from True have tin: "?t \<in> set (timers w)" by simp
  have sub: "set (timers ?w) \<subseteq> set (timers w)"
    using set_take_subset [of k "timers w"] set_drop_subset [of "Suc k" "timers w"] by auto
  obtain s' i where rc: "run_callback (snd ?t) ?w = settle (target (snd ?t)) (Fulfilled (payload (snd ?t))) (log s' i ?w)"
    using run_callback_settle by blast
  have f: "fire k w = settle (target (snd ?t)) (Fulfilled (payload (snd ?t))) (log s' i ?w)"
    using True rc by (simp add: fire_def)
  show ?thesis
  proof (cases "target (snd ?t) = p")
    case True
    with s tin have dv: "fst ?t = d" "payload (snd ?t) = v"
      by (auto simp: scheduled_def)
    with \<open>k < length (timers w) \<and> fst (timers w ! k) \<le> clock w\<close> have d: "d \<le> clock w" by simp
    have "settle p (Fulfilled v) (log s' i ?w) = settle p (Fulfilled v) (log s' i w)\<lparr>timers := timers ?w\<rparr>"
      by (simp add: settle_def log_def)
    moreover from scheduled_settle_self [OF scheduled_frame [OF s, of "log s' i w"]] d
    have ss: "scheduled (settle p (Fulfilled v) (log s' i w)) p d v" by simp
    have "state (promises (settle p (Fulfilled v) (log s' i w)) ! p) = Fulfilled v"
      using s d by (auto simp: settle_state scheduled_def fires_def)
    with ss sub have "scheduled (settle p (Fulfilled v) (log s' i w)\<lparr>timers := timers ?w\<rparr>) p d v"
      unfolding scheduled_def by auto
    ultimately show ?thesis using f True dv by simp
  next
    case False
    have "scheduled (log s' i ?w) p d v"
    proof -
      have keep: "t \<in> set (timers ?w)" if "t \<in> set (timers w)" "target (snd t) = p" for t
        using in_set_remove_nth [OF that(1), of k] that(2) False by auto
      from s sub keep show ?thesis unfolding scheduled_def by simp blast
    qed
    from scheduled_settle_other [OF this False [symmetric, THEN not_sym]] f show ?thesis
      by simp
  qed
qed


lemma scheduled_microtask:
  assumes s: "scheduled w p d v"
  shows "scheduled (microtask w) p d v"
proof (cases "microtasks w")
  case Nil
  with s show ?thesis by (simp add: microtask_def)
next
  case (Cons j js)
  obtain c st q where j: "j = (c, st, q)" by (cases j)
  from s Cons j have q: "q \<noteq> p" by (auto simp: scheduled_def)
  from s Cons have pop: "scheduled (w\<lparr>microtasks := js\<rparr>) p d v"
    unfolding scheduled_def by simp
  show ?thesis
  proof (cases "st = Pending")
    case True
    with pop Cons j show ?thesis by (simp add: microtask_def run_job_def)
  next
    case False
    have "scheduled (written c st (w\<lparr>microtasks := js\<rparr>)) p d v"
      by (rule scheduled_frame [OF pop]) (simp_all add: written_def)
    from scheduled_settle_other [OF this q] Cons j show ?thesis
      by (simp add: microtask_def run_job_written [OF False])
  qed
qed

lemma scheduled_fetch_other:
  assumes s: "scheduled w p d v"
  shows "scheduled (snd (fetchReviewer i w)) p d v"
    and "scheduled (snd (fetchCommentsForReviewer i w)) p d v"
    and "scheduled (snd (fetchUsersResponseToReviewer i w)) p d v"
proof -
  from s have p: "p < length (promises w)" by (simp add: scheduled_def)
  have l: "scheduled (log x i w) p d v" for x
    by (rule scheduled_frame [OF s]) simp_all
  from p show "scheduled (snd (fetchReviewer i w)) p d v"
    by (simp add: fetchReviewer_eq scheduled_setTimeout scheduled_new_promise l)
  from p show "scheduled (snd (fetchCommentsForReviewer i w)) p d v"
    by (simp add: fetchCommentsForReviewer_eq scheduled_setTimeout scheduled_new_promise l)
  from p show "scheduled (snd (fetchUsersResponseToReviewer i w)) p d v"
    by (simp add: fetchUsersResponseToReviewer_eq scheduled_setTimeout scheduled_new_promise l)
qed

lemma scheduled_started: "scheduled w p d v \<Longrightarrow> scheduled (started i w) p d v"
  by (simp add: started_def scheduled_fetch_other)

lemma scheduled_wraps:
  assumes "scheduled w p d v"
    and "Suc (Suc (n)) < length (promises w)"
  shows "scheduled (snd (wrapPromise (Suc (Suc n))
       (snd (wrapPromise (Suc n) (snd (wrapPromise n w)))))) p d v"
  using assms by (intro scheduled_wrap) simp_all

lemma scheduled_fetchCodeReviewerData:
  "scheduled w p d v \<Longrightarrow> scheduled (snd (fetchCodeReviewerData i w)) p d v"
  by (simp add: fetchCodeReviewerData_eq scheduled_wraps scheduled_started)

text \<open>An action is foreign to a promise when it is not a direct resolve or reject of it.\<close>

fun foreign :: "nat \<Rightarrow> action \<Rightarrow> bool" where
  "foreign p (Resolve p' v) = (p' \<noteq> p)"
| "foreign p (Reject p' e) = (p' \<noteq> p)"
| "foreign p a = True"

lemma scheduled_step:
  assumes "scheduled w p d v" and "foreign p a"
  shows "scheduled (step a w) p d v"
proof (cases a)
  case Tick
  show ?thesis unfolding Tick step.simps
    by (rule scheduled_frame [OF assms(1)]) simp_all
qed (use assms in \<open>simp_all add: scheduled_fire scheduled_microtask scheduled_new_promise
      resolve_def reject_def scheduled_settle_other scheduled_wrap
      scheduled_fetchCodeReviewerData\<close>)

lemma scheduled_exec:
  assumes "scheduled w p d v" and "\<forall>a \<in> set as. foreign p a"
  shows "scheduled (exec as w) p d v"
  using assms by (induction as arbitrary: w) (simp_all add: scheduled_step)

subsection \<open>The checkpoint and the idle loop as runs of steps\<close>

lemma drain_exec: "\<exists>n. drain w = exec (replicate n Microtask) w"
proof (induction w rule: drain.induct)
  case (1 w)
  show ?case
  proof (cases "microtasks w")
    case Nil
    then have "drain w = exec (replicate 0 Microtask) w" by (simp add: drain.simps)
    then show ?thesis by blast
  next
    case (Cons j js)
    from 1 [OF Cons] obtain n where
      "drain (run_job j (w\<lparr>microtasks := js\<rparr>)) = exec (replicate n Microtask) (run_job j (w\<lparr>microtasks := js\<rparr>))"
      by blast
    with Cons have "drain w = exec (replicate (Suc n) Microtask) w"
      by (simp add: drain.simps microtask_def)
    then show ?thesis by blast
  qed
qed

lemma drain_empty: "microtasks (drain w) = []"
proof (induction w rule: drain.induct)
  case (1 w)
  show ?case
  proof (cases "microtasks w")
    case Nil
    then show ?thesis by (simp add: drain.simps)
  next
    case (Cons j js)
    with 1 show ?thesis by (simp add: drain.simps)
  qed
qed

lemma foreign_microtasks: "\<forall>a \<in> set (replicate n Microtask). foreign p a"
  by simp

lemma drain_cells:
  assumes "inv w" and "c < length (cells w)"
  shows "c < length (cells (drain w)) \<and> wrapped (cells (drain w) ! c) = wrapped (cells w ! c) \<and>
    suspender (cells (drain w) ! c) = suspender (cells w ! c)"
  using drain_exec [of w] exec_cells [OF assms] by metis

lemma clock_fire [simp]: "clock (fire k w) = clock w"
proof -
  have "clock (run_callback cb w') = clock w'" for cb w'
    by (cases cb) (simp_all add: resolve_def)
  then show ?thesis by (simp add: fire_def)
qed

lemma clock_run_job [simp]: "clock (run_job j w) = clock w"
  by (cases j) (simp add: run_job_def resolve_def on_success_def on_error_def split: pstate.splits)

lemma clock_drain [simp]: "clock (drain w) = clock w"
proof (induction w rule: drain.induct)
  case (1 w)
  show ?case
  proof (cases "microtasks w")
    case Nil
    then show ?thesis by (simp add: drain.simps)
  next
    case (Cons j js)
    with 1 show ?thesis by (simp add: drain.simps)
  qed
qed


fun quiet :: "action \<Rightarrow> bool" where
  "quiet Tick = True"
| "quiet (Fire k) = True"
| "quiet Microtask = True"
| "quiet a = False"

lemma quiet_foreign: "quiet a \<Longrightarrow> foreign p a"
  by (cases a) simp_all

lemma fire_due_exec: "\<exists>as. fire_due w = exec as w \<and> (\<forall>a \<in> set as. quiet a)"
proof (induction w rule: fire_due.induct)
  case (1 w)
  show ?case
  proof (cases "first_due w")
    case None
    then have "fire_due w = exec [] w" by (simp add: fire_due.simps)
    then show ?thesis by fastforce
  next
    case (Some k)
    from 1 [OF Some] obtain as where as:
      "fire_due (drain (fire k w)) = exec as (drain (fire k w))" "\<forall>a \<in> set as. quiet a"
      by blast
    from drain_exec [of "fire k w"] obtain n where
      n: "drain (fire k w) = exec (replicate n Microtask) (fire k w)" by blast
    have "fire_due w = exec (Fire k # replicate n Microtask @ as) w"
      using Some as(1) n by (simp add: fire_due.simps exec_append)
    moreover have "\<forall>a \<in> set (Fire k # replicate n Microtask @ as). quiet a"
      using as(2) by auto
    ultimately show ?thesis by blast
  qed
qed

lemma advance_exec: "\<exists>as. advance n w = exec as w \<and> (\<forall>a \<in> set as. quiet a)"
proof (induction n arbitrary: w)
  case 0
  have "advance 0 w = exec [] w" by simp
  then show ?case by fastforce
next
  case (Suc n)
  from Suc [of "fire_due (step Tick w)"] obtain as where as:
    "advance n (fire_due (step Tick w)) = exec as (fire_due (step Tick w))"
    "\<forall>a \<in> set as. quiet a" by blast
  from fire_due_exec [of "step Tick w"] obtain bs where bs:
    "fire_due (step Tick w) = exec bs (step Tick w)" "\<forall>a \<in> set bs. quiet a" by blast
  have "advance (Suc n) w = exec (Tick # bs @ as) w"
    using as(1) bs(1) by (simp add: exec_append)
  moreover have "\<forall>a \<in> set (Tick # bs @ as). quiet a"
    using as(2) bs(2) by auto
  ultimately show ?case by blast
qed

lemma clock_fire_due [simp]: "clock (fire_due w) = clock w"
proof (induction w rule: fire_due.induct)
  case (1 w)
  show ?case
  proof (cases "first_due w")
    case None
    then show ?thesis by (simp add: fire_due.simps)
  next
    case (Some k)
    with 1 show ?thesis by (simp add: fire_due.simps)
  qed
qed

lemma clock_advance [simp]: "clock (advance n w) = clock w + n"
  by (induction n arbitrary: w) simp_all

lemma fire_due_none_due: "\<forall>t \<in> set (timers (fire_due w)). clock w < fst t"
proof (induction w rule: fire_due.induct)
  case (1 w)
  show ?case
  proof (cases "first_due w")
    case None
    then have "\<forall>k < length (timers w). \<not> fst (timers w ! k) \<le> clock w"
      by (auto simp: first_due_def find_None_iff)
    then have "\<forall>t \<in> set (timers w). clock w < fst t"
      by (fastforce simp: in_set_conv_nth)
    with None show ?thesis by (simp add: fire_due.simps)
  next
    case (Some k)
    with 1 show ?thesis by (simp add: fire_due.simps)
  qed
qed

lemma advance_none_due: "0 < n \<Longrightarrow> \<forall>t \<in> set (timers (advance n w)). clock w + n < fst t"
proof (induction n arbitrary: w)
  case 0
  then show ?case by simp
next
  case (Suc n)
  show ?case
  proof (cases n)
    case 0
    with fire_due_none_due [of "step Tick w"] show ?thesis by simp
  next
    case (Suc m)
    with Suc.IH [of "fire_due (step Tick w)"] show ?thesis by simp
  qed
qed

text \<open>After a tick of the idle loop the microtask queue has been drained whenever a timer ran;
  what was queued before stays queued.\<close>

lemma fire_due_queue: "fire_due w = w \<or> microtasks (fire_due w) = []"
proof (induction w rule: fire_due.induct)
  case (1 w)
  show ?case
  proof (cases "first_due w")
    case None
    then show ?thesis by (simp add: fire_due.simps)
  next
    case (Some k)
    with 1 [OF Some] show ?thesis by (auto simp: fire_due.simps drain_empty)
  qed
qed

subsection \<open>A resource wired to a scheduled promise\<close>

definition wired :: "world \<Rightarrow> nat \<Rightarrow> nat \<Rightarrow> nat \<Rightarrow> nat \<Rightarrow> val \<Rightarrow> bool" where
  "wired w c p q d v \<longleftrightarrow>
    inv w \<and> scheduled w p d v \<and> c < length (cells w) \<and>
    wrapped (cells w ! c) = p \<and> suspender (cells w ! c) = q"

lemma wired_exec:
  assumes "wired w c p q d v" and "\<forall>a \<in> set as. foreign p a"
  shows "wired (exec as w) c p q d v"
  using assms exec_cells [of w c as] unfolding wired_def
  by (simp add: inv_exec scheduled_exec)

lemma wired_advance: "wired w c p q d v \<Longrightarrow> wired (advance n w) c p q d v"
  using advance_exec [of n w] wired_exec quiet_foreign by metis

text \<open>The closure has taken the outcome over once its promise is settled.\<close>

definition delivered :: "world \<Rightarrow> nat \<Rightarrow> bool" where
  "delivered w c \<longleftrightarrow>
    (state (promises w ! wrapped (cells w ! c)) = Pending \<or> status (cells w ! c) \<noteq> ''pending'')"

lemma delivered_empty_queue:
  assumes "inv w" and "c < length (cells w)" and "microtasks w = []"
  shows "delivered w c"
proof -
  from assms have ok: "cell_ok w c" by (simp add: inv_def)
  from assms(3) have "queued w c = 0" by (simp add: queued_def)
  with cell_ok_queued [OF ok] show ?thesis
    by (simp add: delivered_def split: if_splits)
qed

lemma delivered_tick: "delivered w c \<Longrightarrow> delivered (step Tick w) c"
  by (simp add: delivered_def)

lemma delivered_fire_due:
  assumes "inv w" and "c < length (cells w)" and "delivered w c"
  shows "delivered (fire_due w) c"
proof -
  from fire_due_exec [of w] obtain as where as: "fire_due w = exec as w" by blast
  from inv_exec [OF assms(1), of as] exec_cells [OF assms(1,2), of as] as
  have "inv (fire_due w)" "c < length (cells (fire_due w))" by simp_all
  from delivered_empty_queue [OF this] fire_due_queue [of w] assms(3) show ?thesis
    by auto
qed

lemma delivered_advance:
  assumes "inv w" and "c < length (cells w)" and "delivered w c"
  shows "delivered (advance n w) c"
  using assms
proof (induction n arbitrary: w)
  case 0
  then show ?case by simp
next
  case (Suc n)
  let ?w = "fire_due (step Tick w)"
  have i: "inv (step Tick w)" using Suc.prems(1) by (rule inv_step)
  have c: "c < length (cells (step Tick w))" using Suc.prems(2) by simp
  from fire_due_exec [of "step Tick w"] obtain as where as: "?w = exec as (step Tick w)" by blast
  from inv_exec [OF i, of as] exec_cells [OF i c, of as] as
  have "inv ?w" "c < length (cells ?w)" by simp_all
  moreover have "delivered ?w c"
    using delivered_fire_due [OF i c delivered_tick [OF Suc.prems(3)]] .
  ultimately show ?case using Suc.IH [of ?w] by simp
qed

lemma timeline:
  assumes w: "wired w c p q d v" and pe: "state (promises w ! p) = Pending"
    and early: "clock w < d"
  shows "fst (read c (advance n w)) = (if clock w + n < d then Thrown_promise q else Returned v) \<and>
    state (promises (advance n w) ! p) = (if clock w + n < d then Pending else Fulfilled v)"
proof -
  let ?w = "advance n w"
  from wired_advance [OF w, of n]
  have i: "inv ?w" and s: "scheduled ?w p d v" and c: "c < length (cells ?w)"
    and wr: "wrapped (cells ?w ! c) = p" and su: "suspender (cells ?w ! c) = q"
    by (simp_all add: wired_def)
  from i c have ok: "cell_ok ?w c" by (simp add: inv_def)
  from w pe have "delivered w c" by (simp add: delivered_def wired_def)
  with w have "delivered ?w c" by (simp add: wired_def delivered_advance)
  then have del: "state (promises ?w ! p) = Pending \<or> status (cells ?w ! c) \<noteq> ''pending''"
    by (simp add: delivered_def wr)
  from s have st: "state (promises ?w ! p) = Pending \<and> (\<exists>t \<in> set (timers ?w). target (snd t) = p \<and> fst t = d) \<or>
      state (promises ?w ! p) = Fulfilled v \<and> d \<le> clock w + n"
    unfolding scheduled_def by auto
  have punctual: "state (promises ?w ! p) = Pending \<Longrightarrow> clock w + n < d"
  proof (cases n)
    case 0
    with early show ?thesis by simp
  next
    case (Suc m)
    assume "state (promises ?w ! p) = Pending"
    with st obtain t where "t \<in> set (timers ?w)" "fst t = d" by auto
    with advance_none_due [of n w] Suc show ?thesis by auto
  qed
  show ?thesis
  proof (cases "clock w + n < d")
    case True
    with st have pend: "state (promises ?w ! p) = Pending" by auto
    with cell_ok_status [OF ok] wr have "status (cells ?w ! c) = ''pending''" by auto
    with True pend su show ?thesis by (simp add: read_by_status)
  next
    case False
    with punctual st have f: "state (promises ?w ! p) = Fulfilled v" by auto
    with del have "status (cells ?w ! c) \<noteq> ''pending''" by simp
    with cell_ok_status [OF ok] wr f
    have "status (cells ?w ! c) = ''success''" "result (cells ?w ! c) = v" by auto
    with False f show ?thesis by (simp add: read_by_status)
  qed
qed


lemma scheduled_early: "scheduled w p d v \<Longrightarrow> clock w < d \<Longrightarrow> state (promises w ! p) = Pending"
  by (auto simp: scheduled_def)

lemma scheduled_outcome:
  "scheduled w p d v \<Longrightarrow> state (promises w ! p) = Pending \<or> state (promises w ! p) = Fulfilled v"
  by (auto simp: scheduled_def)

lemma scheduled_start:
  assumes b: "bounded w" and t: "target cb = length (promises w)"
  shows "scheduled (setTimeout cb n (snd (new_promise (log s i w))))
           (length (promises w)) (clock w + n) (payload cb)"
proof -
  from b have "\<forall>t \<in> set (timers w). target (snd t) \<noteq> length (promises w)"
    and "\<forall>p' < length (promises w). \<forall>r \<in> set (reactions (promises w ! p')).
           snd r \<noteq> length (promises w)"
    and "\<forall>j \<in> set (microtasks w). snd (snd j) \<noteq> length (promises w)"
    unfolding bounded_def by fastforce+
  with t show ?thesis
    unfolding scheduled_def by (auto simp: nth_append less_Suc_eq)
qed

lemma scheduled_fetchReviewer:
  "inv w \<Longrightarrow> scheduled (snd (fetchReviewer i w)) (length (promises w)) (clock w + 300)
     (find_reviewer i)"
  using scheduled_start [of w "Fetched_reviewer (length (promises w)) i" 300]
  by (simp add: fetchReviewer_eq inv_def)

lemma scheduled_fetchCommentsForReviewer:
  "inv w \<Longrightarrow> scheduled (snd (fetchCommentsForReviewer i w)) (length (promises w)) (clock w + 800)
     (comments_for i)"
  using scheduled_start [of w "Fetched_comments (length (promises w)) i" 800]
  by (simp add: fetchCommentsForReviewer_eq inv_def)

lemma scheduled_fetchUsersResponseToReviewer:
  "inv w \<Longrightarrow> scheduled (snd (fetchUsersResponseToReviewer i w)) (length (promises w))
     (clock w + 1500) (responses_for i)"
  using scheduled_start [of w "Fetched_responses (length (promises w)) i" 1500]
  by (simp add: fetchUsersResponseToReviewer_eq inv_def)

lemma fetch_clock [simp]:
  "clock (snd (fetchReviewer i w)) = clock w"
  "clock (snd (fetchCommentsForReviewer i w)) = clock w"
  "clock (snd (fetchUsersResponseToReviewer i w)) = clock w"
  "clock (started i w) = clock w"
  "clock (snd (fetchCodeReviewerData i w)) = clock w"
  by (simp_all add: fetchReviewer_eq fetchCommentsForReviewer_eq fetchUsersResponseToReviewer_eq
      started_def fetchCodeReviewerData_eq)

lemma started_scheduled:
  assumes i: "inv w"
  shows "scheduled (started i' w) (length (promises w)) (clock w + 300) (find_reviewer i')"
    and "scheduled (started i' w) (Suc (length (promises w))) (clock w + 800) (comments_for i')"
    and "scheduled (started i' w) (Suc (Suc (length (promises w)))) (clock w + 1500)
           (responses_for i')"
proof -
  let ?a = "snd (fetchReviewer i' w)"
  let ?b = "snd (fetchCommentsForReviewer i' ?a)"
  have ia: "inv ?a" using i by (rule inv_fetchReviewer)
  have ib: "inv ?b" using ia by (rule inv_fetchCommentsForReviewer)
  show "scheduled (started i' w) (length (promises w)) (clock w + 300) (find_reviewer i')"
    unfolding started_def
    by (intro scheduled_fetch_other scheduled_fetchReviewer i)
  from scheduled_fetchCommentsForReviewer [OF ia, of i']
  show "scheduled (started i' w) (Suc (length (promises w))) (clock w + 800) (comments_for i')"
    unfolding started_def by (simp add: scheduled_fetch_other)
  from scheduled_fetchUsersResponseToReviewer [OF ib, of i']
  show "scheduled (started i' w) (Suc (Suc (length (promises w)))) (clock w + 1500)
           (responses_for i')"
    unfolding started_def by simp
qed

lemma bundle_wired:
  assumes i: "inv w"
  shows "wired (snd (fetchCodeReviewerData i' w)) (length (cells w)) (length (promises w))
           (Suc (Suc (Suc (length (promises w))))) (clock w + 300) (find_reviewer i')"
    and "wired (snd (fetchCodeReviewerData i' w)) (Suc (length (cells w)))
           (Suc (length (promises w))) (Suc (Suc (Suc (Suc (length (promises w))))))
           (clock w + 800) (comments_for i')"
    and "wired (snd (fetchCodeReviewerData i' w)) (Suc (Suc (length (cells w))))
           (Suc (Suc (length (promises w)))) (Suc (Suc (Suc (Suc (Suc (length (promises w)))))))
           (clock w + 1500) (responses_for i')"
proof -
  let ?w = "snd (fetchCodeReviewerData i' w)"
  have iw: "inv ?w" using i by (rule inv_fetchCodeReviewerData)
  have s: "scheduled (started i' w) p d v \<Longrightarrow> scheduled ?w p d v" for p d v
    by (simp add: fetchCodeReviewerData_eq scheduled_wraps)
  show "wired ?w (length (cells w)) (length (promises w))
           (Suc (Suc (Suc (length (promises w))))) (clock w + 300) (find_reviewer i')"
    unfolding wired_def using iw s [OF started_scheduled(1) [OF i]]
    by (simp add: fetch_cells nth_append)
  show "wired ?w (Suc (length (cells w)))
           (Suc (length (promises w))) (Suc (Suc (Suc (Suc (length (promises w))))))
           (clock w + 800) (comments_for i')"
    unfolding wired_def using iw s [OF started_scheduled(2) [OF i]]
    by (simp add: fetch_cells nth_append)
  show "wired ?w (Suc (Suc (length (cells w))))
           (Suc (Suc (length (promises w)))) (Suc (Suc (Suc (Suc (Suc (length (promises w)))))))
           (clock w + 1500) (responses_for i')"
    unfolding wired_def using iw s [OF started_scheduled(3) [OF i]]
    by (simp add: fetch_cells nth_append)
qed

lemma wired_timeline:
  assumes w: "wired w c p q d v" and early: "clock w < d"
  shows "fst (read c (advance n w)) = (if clock w + n < d then Thrown_promise q else Returned v)"
proof -
  from w have s: "scheduled w p d v" by (simp add: wired_def)
  from timeline [OF w scheduled_early [OF s early] early, of n] show ?thesis by simp
qed

lemma fetch_bundle [simp]:
  "fst (fetchCodeReviewerData i w) =
    \<lparr>bundle_id = i, reviewer = length (cells w), comments = Suc (length (cells w)),
      responses = Suc (Suc (length (cells w)))\<rparr>"
  by (simp add: fetchCodeReviewerData_eq)

lemma bundle_timeline:
  assumes i: "inv w"
  shows "fst (read (reviewer (fst (fetchCodeReviewerData i' w)))
            (advance t (snd (fetchCodeReviewerData i' w)))) =
      (if t < 300 then Thrown_promise (Suc (Suc (Suc (length (promises w)))))
       else Returned (find_reviewer i'))"
    and "fst (read (comments (fst (fetchCodeReviewerData i' w)))
            (advance t (snd (fetchCodeReviewerData i' w)))) =
      (if t < 800 then Thrown_promise (Suc (Suc (Suc (Suc (length (promises w))))))
       else Returned (comments_for i'))"
    and "fst (read (responses (fst (fetchCodeReviewerData i' w)))
            (advance t (snd (fetchCodeReviewerData i' w)))) =
      (if t < 1500 then Thrown_promise (Suc (Suc (Suc (Suc (Suc (length (promises w)))))))
       else Returned (responses_for i'))"
  using wired_timeline [OF bundle_wired(1) [OF i, of i'], of t]
    wired_timeline [OF bundle_wired(2) [OF i, of i'], of t]
    wired_timeline [OF bundle_wired(3) [OF i, of i'], of t]
  by simp_all

lemma data_for_3:
  "find_reviewer 3 = Reviewer \<lparr>name = ''Marioli'', reviewer_id = 3\<rparr>"
  "comments_for 3 = Comments
    [\<lparr>comment_id = 0, reviewerId = 3,
      comment_text = ''I do not like this true here, I will create a constant with a meaning name''\<rparr>,
     \<lparr>comment_id = 1, reviewerId = 3,
      comment_text = ''From my point of view make the code less readable''\<rparr>,
     \<lparr>comment_id = 2, reviewerId = 3, comment_text = ''What does it do?''\<rparr>]"
  "responses_for 3 = Comments [\<lparr>comment_id = 0, reviewerId = 3, comment_text = ''WAT''\<rparr>]"
  by (simp_all add: find_reviewer_def BE_REVIEWERS_def comments_for_def BE_COMMENTS_def
      responses_for_def BE_RESPONSES_def)

text \<open>
  C7. Build the bundle for key 3 in any reachable world and let the idle event loop run for
  \<open>t\<close> time units. The reviewer slot: \<^verbatim>\<open>read()\<close> throws the slot's suspender while
  \<open>t < 300\<close> and from \<open>t = 300\<close> on returns the reviewer Marioli, whose id is 3. The
  comments slot: the suspender while \<open>t < 800\<close>, then the three backing comments whose
  \<^verbatim>\<open>reviewerId\<close> is 3, which are all there are. The responses slot: the suspender while
  \<open>t < 1500\<close>, then the one response to reviewer 3.
\<close>

theorem bundle_for_3_timeline:
  "(let w0 = exec as empty_world;
        b = fst (fetchCodeReviewerData 3 w0);
        w1 = snd (fetchCodeReviewerData 3 w0)
    in fst (read (reviewer b) (advance t w1)) =
         (if t < 300 then Thrown_promise (suspender (cells w1 ! reviewer b))
          else Returned (Reviewer \<lparr>name = ''Marioli'', reviewer_id = 3\<rparr>)) \<and>
       fst (read (comments b) (advance t w1)) =
         (if t < 800 then Thrown_promise (suspender (cells w1 ! comments b))
          else Returned (Comments
            [\<lparr>comment_id = 0, reviewerId = 3,
              comment_text = ''I do not like this true here, I will create a constant with a meaning name''\<rparr>,
             \<lparr>comment_id = 1, reviewerId = 3,
              comment_text = ''From my point of view make the code less readable''\<rparr>,
             \<lparr>comment_id = 2, reviewerId = 3, comment_text = ''What does it do?''\<rparr>])) \<and>
       fst (read (responses b) (advance t w1)) =
         (if t < 1500 then Thrown_promise (suspender (cells w1 ! responses b))
          else Returned (Comments [\<lparr>comment_id = 0, reviewerId = 3, comment_text = ''WAT''\<rparr>])) \<and>
       Comments (filter (\<lambda>c. reviewerId c = 3) BE_COMMENTS) = comments_for 3 \<and>
       find_reviewer 3 = Reviewer \<lparr>name = ''Marioli'', reviewer_id = 3\<rparr>)"
  using bundle_timeline [OF inv_reachable, of 3 as t]
  unfolding Let_def
  by (simp add: data_for_3 fetch_cells nth_append BE_COMMENTS_def)


theorem bundle_for_3_timeline_witness:
  "fst (read (reviewer (fst (fetchCodeReviewerData 3 (exec [] empty_world))))
        (advance 0 (snd (fetchCodeReviewerData 3 (exec [] empty_world))))) = Thrown_promise 3 \<and>
   fst (read (reviewer (fst (fetchCodeReviewerData 3 (exec [] empty_world))))
        (advance 301 (snd (fetchCodeReviewerData 3 (exec [] empty_world))))) =
     Returned (Reviewer \<lparr>name = ''Marioli'', reviewer_id = 3\<rparr>) \<and>
   fst (read (responses (fst (fetchCodeReviewerData 3 (exec [] empty_world))))
        (advance 1500 (snd (fetchCodeReviewerData 3 (exec [] empty_world))))) =
     Returned (Comments [\<lparr>comment_id = 0, reviewerId = 3, comment_text = ''WAT''\<rparr>])"
  using bundle_for_3_timeline [of "[]" 0] bundle_for_3_timeline [of "[]" 301]
    bundle_for_3_timeline [of "[]" 1500]
  unfolding Let_def
  by (simp add: fetch_cells empty_world_def)

subsection \<open>A settled promise stays as it is\<close>

lemma settle_keeps:
  "state (promises w ! p) \<noteq> Pending \<Longrightarrow>
   state (promises (settle p' s w) ! p) = state (promises w ! p)"
  by (auto simp: settle_state fires_def)

lemma step_state:
  assumes p: "p < length (promises w)" and s: "state (promises w ! p) \<noteq> Pending"
  shows "p < length (promises (step a w)) \<and>
    state (promises (step a w) ! p) = state (promises w ! p)"
proof (cases a)
  case (Fire k)
  have "p < length (promises (run_callback cb w')) \<and>
      state (promises (run_callback cb w') ! p) = state (promises w ! p)"
    if "promises w' = promises w" for cb w'
    using that p s by (cases cb) (simp_all add: resolve_def settle_keeps)
  then show ?thesis using Fire p by (simp add: fire_def)
next
  case Microtask
  show ?thesis
  proof (cases "microtasks w")
    case Nil
    with Microtask p show ?thesis by (simp add: microtask_def)
  next
    case (Cons j js)
    obtain c st q where j: "j = (c, st, q)" by (cases j)
    from p s have "p < length (promises (run_job (c, st, q) (w\<lparr>microtasks := js\<rparr>))) \<and>
      state (promises (run_job (c, st, q) (w\<lparr>microtasks := js\<rparr>)) ! p) = state (promises w ! p)"
      by (cases st) (simp_all add: run_job_def resolve_def on_success_def on_error_def settle_keeps)
    with Microtask Cons j show ?thesis by (simp add: microtask_def)
  qed
next
  case (Wrap p')
  with p s wrap_state [of p' w p] show ?thesis by auto
next
  case (Fetch i)
  have st: "state (promises (started i w) ! p) = state (promises w ! p)"
    using p by (simp add: started_def fetchReviewer_eq fetchCommentsForReviewer_eq
        fetchUsersResponseToReviewer_eq nth_append)
  let ?n = "length (promises w)"
  let ?a = "snd (wrapPromise ?n (started i w))"
  let ?b = "snd (wrapPromise (Suc ?n) ?a)"
  let ?c = "snd (wrapPromise (Suc (Suc ?n)) ?b)"
  have "state (promises ?a ! p) = state (promises w ! p)"
    using wrap_state [of ?n "started i w" p] p st by simp
  then have "state (promises ?b ! p) = state (promises w ! p)"
    using wrap_state [of "Suc ?n" ?a p] p by simp
  then have "state (promises ?c ! p) = state (promises w ! p)"
    using wrap_state [of "Suc (Suc ?n)" ?b p] p by simp
  with Fetch p show ?thesis by (simp add: fetchCodeReviewerData_eq)
qed (use p s in \<open>simp_all add: resolve_def reject_def settle_keeps nth_append\<close>)

lemma exec_state:
  assumes "p < length (promises w)" and "state (promises w ! p) \<noteq> Pending"
  shows "state (promises (exec as w) ! p) = state (promises w ! p)"
  using assms
proof (induction as arbitrary: w)
  case Nil
  then show ?case by simp
next
  case (Cons a as)
  from step_state [OF Cons.prems, of a] Cons.IH [of "step a w"] Cons.prems(2) show ?case by simp
qed

lemma read_Returned: "fst (read c w) = Returned v \<Longrightarrow> status (cells w ! c) = ''success''"
  by (simp add: read_by_status split: if_splits)

lemma read_Thrown_promise: "fst (read c w) = Thrown_promise q \<Longrightarrow> status (cells w ! c) = ''pending''"
  by (simp add: read_by_status split: if_splits)

lemma wired_never_error:
  assumes w: "wired w c p q d v"
  shows "status (cells w ! c) \<noteq> ''error'' \<and> (\<forall>e. state (promises w ! p) \<noteq> Rejected e) \<and>
    (fst (read c w) = Thrown_promise q \<or> fst (read c w) = Returned v)"
proof -
  from w have ok: "cell_ok w c" and wr: "wrapped (cells w ! c) = p"
    and su: "suspender (cells w ! c) = q" and s: "scheduled w p d v"
    by (simp_all add: wired_def inv_def)
  from scheduled_outcome [OF s] cell_ok_status [OF ok] wr su show ?thesis
    by (auto simp: read_by_status)
qed

lemma wired_wrap:
  assumes i: "inv w" and s: "scheduled w p d v"
  shows "wired (snd (wrapPromise p w)) (length (cells w)) p (length (promises w)) d v"
proof -
  from s have p: "p < length (promises w)" by (simp add: scheduled_def)
  from inv_wrap [OF i p] scheduled_wrap [OF s p] show ?thesis
    by (simp add: wired_def)
qed

lemma missing_reviewer: "i \<noteq> 3 \<Longrightarrow> i \<noteq> 5 \<Longrightarrow> i \<noteq> 7 \<Longrightarrow> find_reviewer i = Undefined"
  by (simp add: find_reviewer_def BE_REVIEWERS_def)

text \<open>
  C9. Let \<open>i\<close> be an id with no reviewer in the backing data (not 3, 5 or 7). Then the
  lookup of \<^verbatim>\<open>fetchReviewer(i)\<close> finds nothing. Start \<^verbatim>\<open>fetchReviewer(i)\<close> in any
  reachable world and wrap its promise. With the idle event loop running for \<open>t\<close> time
  units, the promise is pending while \<open>t < 300\<close> and fulfilled with undefined from then on,
  the resource's status is \<^verbatim>\<open>"pending"\<close> and then \<^verbatim>\<open>"success"\<close>, and
  \<^verbatim>\<open>read()\<close> throws the suspender and then returns undefined. Whatever else happens (any
  steps that do not settle the promise by hand), the promise is never rejected, the status
  never \<^verbatim>\<open>"error"\<close>, and \<^verbatim>\<open>read()\<close> throws the suspender or returns undefined.
\<close>

theorem missing_reviewer_fulfils_undefined:
  "i \<noteq> 3 \<Longrightarrow> i \<noteq> 5 \<Longrightarrow> i \<noteq> 7 \<Longrightarrow>
   (let w0 = exec as empty_world;
        p = fst (fetchReviewer i w0);
        w1 = snd (fetchReviewer i w0);
        c = fst (wrapPromise p w1);
        w2 = snd (wrapPromise p w1)
    in find_reviewer i = Undefined \<and>
       fst (read c (advance t w2)) =
         (if t < 300 then Thrown_promise (suspender (cells w2 ! c)) else Returned Undefined) \<and>
       state (promises (advance t w2) ! p) = (if t < 300 then Pending else Fulfilled Undefined) \<and>
       status (cells (advance t w2) ! c) = (if t < 300 then ''pending'' else ''success'') \<and>
       (\<forall>bs. (\<forall>a \<in> set bs. foreign p a) \<longrightarrow>
          status (cells (exec bs w2) ! c) \<noteq> ''error'' \<and>
          (\<forall>e. state (promises (exec bs w2) ! p) \<noteq> Rejected e) \<and>
          (fst (read c (exec bs w2)) = Thrown_promise (suspender (cells w2 ! c)) \<or>
           fst (read c (exec bs w2)) = Returned Undefined)))"
proof -
  assume i: "i \<noteq> 3" "i \<noteq> 5" "i \<noteq> 7"
  let ?u = "exec as empty_world"
  let ?p = "length (promises ?u)"
  let ?a = "snd (fetchReviewer i ?u)"
  let ?c = "length (cells ?u)"
  let ?b = "snd (wrapPromise ?p ?a)"
  let ?q = "Suc ?p"
  note un = missing_reviewer [OF i]
  have ia: "inv ?a" by (rule inv_fetchReviewer [OF inv_reachable])
  have sa: "scheduled ?a ?p (clock ?u + 300) Undefined"
    using scheduled_fetchReviewer [OF inv_reachable, of i as] by (simp add: un)
  from wired_wrap [OF ia sa]
  have w: "wired ?b ?c ?p ?q (clock ?u + 300) Undefined" by simp
  have cl: "clock ?b = clock ?u" by simp
  have pe: "state (promises ?b ! ?p) = Pending"
    using w cl by (intro scheduled_early [of ?b ?p "clock ?u + 300" Undefined])
      (simp_all add: wired_def)
  from timeline [OF w pe, of t] cl
  have r: "fst (read ?c (advance t ?b)) = (if t < 300 then Thrown_promise ?q else Returned Undefined)"
    and st: "state (promises (advance t ?b) ! ?p) = (if t < 300 then Pending else Fulfilled Undefined)"
    by simp_all
  from r have ss: "status (cells (advance t ?b) ! ?c) = (if t < 300 then ''pending'' else ''success'')"
    using read_Returned [of ?c "advance t ?b" Undefined]
      read_Thrown_promise [of ?c "advance t ?b" ?q]
    by (simp split: if_splits)
  have nv: "status (cells (exec bs ?b) ! ?c) \<noteq> ''error'' \<and>
          (\<forall>e. state (promises (exec bs ?b) ! ?p) \<noteq> Rejected e) \<and>
          (fst (read ?c (exec bs ?b)) = Thrown_promise ?q \<or>
           fst (read ?c (exec bs ?b)) = Returned Undefined)"
    if "\<forall>a \<in> set bs. foreign ?p a" for bs
    using wired_never_error [OF wired_exec [OF w that]] .
  have fs: "fst (fetchReviewer i ?u) = ?p" by (simp add: fetchReviewer_eq)
  have sq: "suspender (cells ?b ! ?c) = ?q" by simp
  from un r st ss nv show ?thesis
    unfolding Let_def fs wrap_fst fetch_lengths sq by simp
qed


theorem missing_reviewer_fulfils_undefined_witness:
  "(4::int) \<noteq> 3 \<and> (4::int) \<noteq> 5 \<and> (4::int) \<noteq> 7 \<and>
   find_reviewer 4 = Undefined \<and>
   fst (read (fst (wrapPromise (fst (fetchReviewer 4 (exec [] empty_world)))
                 (snd (fetchReviewer 4 (exec [] empty_world)))))
         (advance 300 (snd (wrapPromise (fst (fetchReviewer 4 (exec [] empty_world)))
                 (snd (fetchReviewer 4 (exec [] empty_world))))))) = Returned Undefined \<and>
   status (cells (advance 300 (snd (wrapPromise (fst (fetchReviewer 4 (exec [] empty_world)))
                 (snd (fetchReviewer 4 (exec [] empty_world))))))
      ! fst (wrapPromise (fst (fetchReviewer 4 (exec [] empty_world)))
                 (snd (fetchReviewer 4 (exec [] empty_world))))) = ''success''"
proof -
  have h: "(4::int) \<noteq> 3" "(4::int) \<noteq> 5" "(4::int) \<noteq> 7" by simp_all
  from missing_reviewer_fulfils_undefined [OF h, of "[]" 300] h
  show ?thesis unfolding Let_def by simp
qed


subsection \<open>One slot fails, its siblings do not notice\<close>

lemma wired_after_foreign_reject:
  assumes w: "wired w c p q d v" and ne: "p' \<noteq> p"
  shows "wired (drain (step (Reject p' e) w)) c p q d v"
proof -
  from drain_exec [of "step (Reject p' e) w"] obtain n where
    "drain (step (Reject p' e) w) = exec (Reject p' e # replicate n Microtask) w" by auto
  moreover have "\<forall>a \<in> set (Reject p' e # replicate n Microtask). foreign p a"
    using ne by auto
  ultimately show ?thesis using wired_exec [OF w] by metis
qed

lemma clock_reject [simp]: "clock (reject p e w) = clock w" "clock (resolve p v w) = clock w"
  by (simp_all add: reject_def resolve_def)

lemma sibling_unaffected:
  assumes w: "wired w c p q d v" and early: "clock w < d" and ne: "p' \<noteq> p"
  shows "fst (read c (advance t (drain (step (Reject p' e) w)))) = fst (read c (advance t w))"
proof -
  from wired_timeline [OF wired_after_foreign_reject [OF w ne, of e], of t] early
  have "fst (read c (advance t (drain (step (Reject p' e) w)))) =
      (if clock w + t < d then Thrown_promise q else Returned v)"
    by simp
  with wired_timeline [OF w early, of t] show ?thesis by simp
qed

lemma failed_slot:
  assumes w: "wired w c p q d v" and early: "clock w < d"
  shows "fst (read c (advance t (drain (step (Reject p e) w)))) = Thrown e"
proof -
  let ?r = "step (Reject p e) w"
  let ?w = "drain ?r"
  from w have i: "inv w" and s: "scheduled w p d v" and c: "c < length (cells w)"
    and wr: "wrapped (cells w ! c) = p"
    by (simp_all add: wired_def)
  from s have p: "p < length (promises w)" by (simp add: scheduled_def)
  from scheduled_early [OF s early] have pe: "state (promises w ! p) = Pending" .
  have ir: "inv ?r" using i by (rule inv_step)
  have cr: "c < length (cells ?r)" "wrapped (cells ?r ! c) = p"
    using c wr by (simp_all add: reject_def)
  have sr: "state (promises ?r ! p) = Rejected e" "p < length (promises ?r)"
    using p pe by (simp_all add: reject_def settle_state fires_def)
  from drain_exec [of ?r] obtain n where n: "?w = exec (replicate n Microtask) ?r" by blast
  have iw: "inv ?w" using ir by (rule inv_drain)
  from drain_cells [OF ir cr(1)] cr have cw: "c < length (cells ?w)" "wrapped (cells ?w ! c) = p"
    by simp_all
  from exec_state [OF sr(2), of "replicate n Microtask"] sr(1) n
  have sw: "state (promises ?w ! p) = Rejected e" by simp
  from iw cw have ok: "cell_ok ?w c" by (simp add: inv_def)
  from delivered_empty_queue [OF iw cw(1) drain_empty] sw cw
  have "status (cells ?w ! c) \<noteq> ''pending''" by (simp add: delivered_def)
  with cell_ok_status [OF ok] sw cw
  have k: "status (cells ?w ! c) = ''error''" "result (cells ?w ! c) = e" by auto
  from advance_exec [of t ?w] obtain as where as: "advance t ?w = exec as ?w" by blast
  from exec_cells [OF iw cw(1), of as] k as
  have "cells (advance t ?w) ! c = cells ?w ! c" by simp
  with k show ?thesis by (simp add: read_by_status)
qed

lemma mirror_after_checkpoint:
  assumes i: "inv w" and c: "c < length (cells (drain w))"
  shows "status (cells (drain w) ! c) =
      status_of (state (promises (drain w) ! wrapped (cells (drain w) ! c))) \<and>
    (state (promises (drain w) ! wrapped (cells (drain w) ! c)) \<noteq> Pending \<longrightarrow>
     result (cells (drain w) ! c) =
       value_of (state (promises (drain w) ! wrapped (cells (drain w) ! c))))"
proof -
  let ?w = "drain w"
  have iw: "inv ?w" using i by (rule inv_drain)
  with c have ok: "cell_ok ?w c" by (simp add: inv_def)
  from delivered_empty_queue [OF iw c drain_empty]
  have "state (promises ?w ! wrapped (cells ?w ! c)) = Pending \<or> status (cells ?w ! c) \<noteq> ''pending''"
    by (simp add: delivered_def)
  with cell_ok_status [OF ok] show ?thesis by auto
qed

lemma bundle_promises:
  "wrapped (cells (snd (fetchCodeReviewerData i w)) ! length (cells w)) = length (promises w)"
  "wrapped (cells (snd (fetchCodeReviewerData i w)) ! Suc (length (cells w))) =
     Suc (length (promises w))"
  "wrapped (cells (snd (fetchCodeReviewerData i w)) ! Suc (Suc (length (cells w)))) =
     Suc (Suc (length (promises w)))"
  by (simp_all add: fetch_cells nth_append)

text \<open>
  C5. Build a bundle for any key in any reachable world; its three promises are three
  different promises. Let one slot's operation fail: its promise is rejected with a reason
  \<open>e\<close> right after construction, and the reaction jobs run. Then, with the idle event loop
  running for any \<open>t\<close> time units, \<^verbatim>\<open>read()\<close> on the failed slot throws \<open>e\<close>, and
  \<^verbatim>\<open>read()\<close> on each sibling slot does exactly what it does at the same time when nothing
  failed: it throws the suspender before the slot's own delay and returns the slot's own
  data afterwards. This holds for each of the three slots as the one that fails. In
  general, after the reaction jobs of any reachable world have run, every closure mirrors
  the state of its own wrapped promise and of no other.
\<close>

theorem slot_independence:
  "(let w0 = exec as empty_world;
        b = fst (fetchCodeReviewerData i w0);
        w1 = snd (fetchCodeReviewerData i w0);
        pr = wrapped (cells w1 ! reviewer b);
        pc = wrapped (cells w1 ! comments b);
        ps = wrapped (cells w1 ! responses b);
        wr = drain (step (Reject pr e) w1);
        wc = drain (step (Reject pc e) w1);
        ws = drain (step (Reject ps e) w1)
    in pr \<noteq> pc \<and> pr \<noteq> ps \<and> pc \<noteq> ps \<and>
       fst (read (reviewer b) (advance t wr)) = Thrown e \<and>
       fst (read (comments b) (advance t wr)) = fst (read (comments b) (advance t w1)) \<and>
       fst (read (responses b) (advance t wr)) = fst (read (responses b) (advance t w1)) \<and>
       fst (read (comments b) (advance t wc)) = Thrown e \<and>
       fst (read (reviewer b) (advance t wc)) = fst (read (reviewer b) (advance t w1)) \<and>
       fst (read (responses b) (advance t wc)) = fst (read (responses b) (advance t w1)) \<and>
       fst (read (responses b) (advance t ws)) = Thrown e \<and>
       fst (read (reviewer b) (advance t ws)) = fst (read (reviewer b) (advance t w1)) \<and>
       fst (read (comments b) (advance t ws)) = fst (read (comments b) (advance t w1)) \<and>
       fst (read (reviewer b) (advance t w1)) =
         (if t < 300 then Thrown_promise (suspender (cells w1 ! reviewer b))
          else Returned (find_reviewer i)) \<and>
       fst (read (comments b) (advance t w1)) =
         (if t < 800 then Thrown_promise (suspender (cells w1 ! comments b))
          else Returned (comments_for i)) \<and>
       fst (read (responses b) (advance t w1)) =
         (if t < 1500 then Thrown_promise (suspender (cells w1 ! responses b))
          else Returned (responses_for i)) \<and>
       (\<forall>c < length (cells (drain w0)).
          status (cells (drain w0) ! c) =
            status_of (state (promises (drain w0) ! wrapped (cells (drain w0) ! c))) \<and>
          (state (promises (drain w0) ! wrapped (cells (drain w0) ! c)) \<noteq> Pending \<longrightarrow>
           result (cells (drain w0) ! c) =
             value_of (state (promises (drain w0) ! wrapped (cells (drain w0) ! c))))))"
proof -
  let ?u = "exec as empty_world"
  let ?v = "snd (fetchCodeReviewerData i ?u)"
  let ?m = "length (cells ?u)"
  let ?n = "length (promises ?u)"
  note i = inv_reachable [of as]
  note w1 = bundle_wired(1) [OF i, of i]
  note w2 = bundle_wired(2) [OF i, of i]
  note w3 = bundle_wired(3) [OF i, of i]
  have e1: "clock ?v < clock ?u + 300" and e2: "clock ?v < clock ?u + 800"
    and e3: "clock ?v < clock ?u + 1500"
    by simp_all
  have f1: "fst (read ?m (advance t (drain (step (Reject ?n e) ?v)))) = Thrown e"
    using failed_slot [OF w1 e1] .
  have f2: "fst (read (Suc ?m) (advance t (drain (step (Reject (Suc ?n) e) ?v)))) = Thrown e"
    using failed_slot [OF w2 e2] .
  have f3: "fst (read (Suc (Suc ?m)) (advance t (drain (step (Reject (Suc (Suc ?n)) e) ?v)))) = Thrown e"
    using failed_slot [OF w3 e3] .
  have s12: "fst (read (Suc ?m) (advance t (drain (step (Reject ?n e) ?v)))) =
      fst (read (Suc ?m) (advance t ?v))"
    using sibling_unaffected [OF w2 e2, of ?n] by simp
  have s13: "fst (read (Suc (Suc ?m)) (advance t (drain (step (Reject ?n e) ?v)))) =
      fst (read (Suc (Suc ?m)) (advance t ?v))"
    using sibling_unaffected [OF w3 e3, of ?n] by simp
  have s21: "fst (read ?m (advance t (drain (step (Reject (Suc ?n) e) ?v)))) =
      fst (read ?m (advance t ?v))"
    using sibling_unaffected [OF w1 e1, of "Suc ?n"] by simp
  have s23: "fst (read (Suc (Suc ?m)) (advance t (drain (step (Reject (Suc ?n) e) ?v)))) =
      fst (read (Suc (Suc ?m)) (advance t ?v))"
    using sibling_unaffected [OF w3 e3, of "Suc ?n"] by simp
  have s31: "fst (read ?m (advance t (drain (step (Reject (Suc (Suc ?n)) e) ?v)))) =
      fst (read ?m (advance t ?v))"
    using sibling_unaffected [OF w1 e1, of "Suc (Suc ?n)"] by simp
  have s32: "fst (read (Suc ?m) (advance t (drain (step (Reject (Suc (Suc ?n)) e) ?v)))) =
      fst (read (Suc ?m) (advance t ?v))"
    using sibling_unaffected [OF w2 e2, of "Suc (Suc ?n)"] by simp
  note tl = bundle_timeline [OF i, of i t]
  have su: "suspender (cells ?v ! ?m) = Suc (Suc (Suc ?n))"
    "suspender (cells ?v ! Suc ?m) = Suc (Suc (Suc (Suc ?n)))"
    "suspender (cells ?v ! Suc (Suc ?m)) = Suc (Suc (Suc (Suc (Suc ?n))))"
    by (simp_all add: fetch_cells nth_append)
  have mir: "\<forall>c < length (cells (drain ?u)).
          status (cells (drain ?u) ! c) =
            status_of (state (promises (drain ?u) ! wrapped (cells (drain ?u) ! c))) \<and>
          (state (promises (drain ?u) ! wrapped (cells (drain ?u) ! c)) \<noteq> Pending \<longrightarrow>
           result (cells (drain ?u) ! c) =
             value_of (state (promises (drain ?u) ! wrapped (cells (drain ?u) ! c))))"
    using mirror_after_checkpoint [OF i] by blast
  show ?thesis
    unfolding Let_def fetch_bundle ReviewerResource.simps bundle_promises su
    using f1 f2 f3 s12 s13 s21 s23 s31 s32 tl [unfolded fetch_bundle ReviewerResource.simps] mir
    by simp
qed


theorem slot_independence_witness:
  "(let w0 = exec [] empty_world;
        b = fst (fetchCodeReviewerData 3 w0);
        w1 = snd (fetchCodeReviewerData 3 w0);
        wr = drain (step (Reject (wrapped (cells w1 ! reviewer b)) (Failure ''down'')) w1)
    in fst (read (reviewer b) (advance 1500 wr)) = Thrown (Failure ''down'') \<and>
       fst (read (comments b) (advance 1500 wr)) = Returned (comments_for 3) \<and>
       fst (read (responses b) (advance 1500 wr)) = Returned (responses_for 3) \<and>
       fst (read (comments b) (advance 1500 w1)) = Returned (comments_for 3))"
  using slot_independence [of "[]" 3 "Failure ''down''" 1500]
  unfolding Let_def by simp


section \<open>Proofs: the controller\<close>

lemma handleClick_eq:
  "handleClick s =
    s\<lparr>world := snd (fetchCodeReviewerData (getNextId (bundle_id (resource s))) (world s)),
      resource := fst (fetchCodeReviewerData (getNextId (bundle_id (resource s))) (world s)),
      tab := REVIEWER_DETAILS\<rparr>"
  by (simp add: handleClick_def Let_def case_prod_beta del: fetch_bundle)

lemma getNextId_cases: "getNextId i = 3 \<or> getNextId i = 5 \<or> getNextId i = 7"
  by (simp add: getNextId_def)

text \<open>Each slot of the current bundle is wired to a promise scheduled for the data of the
  current key.\<close>

definition app_inv :: "app \<Rightarrow> bool" where
  "app_inv s \<longleftrightarrow>
    (bundle_id (resource s) = 3 \<or> bundle_id (resource s) = 5 \<or> bundle_id (resource s) = 7) \<and>
    (\<exists>p q d. wired (world s) (reviewer (resource s)) p q d
       (find_reviewer (bundle_id (resource s)))) \<and>
    (\<exists>p q d. wired (world s) (comments (resource s)) p q d
       (comments_for (bundle_id (resource s)))) \<and>
    (\<exists>p q d. wired (world s) (responses (resource s)) p q d
       (responses_for (bundle_id (resource s))))"

lemma app_inv_fetched:
  assumes "inv w" and "i = 3 \<or> i = 5 \<or> i = 7"
  shows "app_inv (s\<lparr>world := snd (fetchCodeReviewerData i w),
                   resource := fst (fetchCodeReviewerData i w), tab := t\<rparr>)"
  unfolding app_inv_def
  using bundle_wired [OF assms(1), of i] assms(2) by (simp del: One_nat_def) blast

lemma app_inv_initial: "app_inv initial_app"
proof -
  have "initial_app = initial_app\<lparr>world := snd (fetchCodeReviewerData 3 empty_world),
      resource := fst (fetchCodeReviewerData 3 empty_world), tab := HOME\<rparr>"
    by (simp add: initial_app_def initialResource_def)
  with app_inv_fetched [OF inv_empty, where i = 3 and s = initial_app and t = HOME] show ?thesis by simp
qed

lemma app_inv_world:
  assumes a: "app_inv s" and q: "quiet a \<or> (\<exists>c. a = Read c)"
  shows "app_inv (s\<lparr>world := step a (world s)\<rparr>)"
proof -
  have f: "foreign p a" for p using q by (cases a) auto
  have "wired (step a (world s)) c p q' d v" if "wired (world s) c p q' d v" for c p q' d v
    using wired_exec [OF that, of "[a]"] f by simp
  with a show ?thesis unfolding app_inv_def by simp blast
qed

lemma app_inv_step: "app_inv s \<Longrightarrow> app_inv (app_step e s)"
proof (cases e)
  case Click
  assume a: "app_inv s"
  then have "inv (world s)" by (auto simp: app_inv_def wired_def)
  from app_inv_fetched [OF this getNextId_cases, where s = s and t = REVIEWER_DETAILS]
  show ?thesis using Click by (simp add: handleClick_eq)
qed (simp_all add: app_inv_world del: step.simps)

lemma app_inv_run: "app_inv s \<Longrightarrow> app_inv (run es s)"
  by (induction es arbitrary: s) (simp_all add: app_inv_step)

lemma find_reviewer_id: "find_reviewer i = Reviewer r \<Longrightarrow> reviewer_id r = i"
  by (auto simp: find_reviewer_def find_Some_iff split: option.splits)

lemma comments_for_id: "comments_for i = Comments cs \<Longrightarrow> \<forall>c \<in> set cs. reviewerId c = i"
  by (auto simp: comments_for_def)

lemma responses_for_id: "responses_for i = Comments cs \<Longrightarrow> \<forall>c \<in> set cs. reviewerId c = i"
  by (auto simp: responses_for_def)

lemma app_inv_reads:
  assumes "app_inv s"
  shows "reviewer (resource s) < length (cells (world s)) \<and>
    comments (resource s) < length (cells (world s)) \<and>
    responses (resource s) < length (cells (world s)) \<and>
    (fst (read (reviewer (resource s)) (world s)) =
        Thrown_promise (suspender (cells (world s) ! reviewer (resource s))) \<or>
     fst (read (reviewer (resource s)) (world s)) =
        Returned (find_reviewer (bundle_id (resource s)))) \<and>
    (fst (read (comments (resource s)) (world s)) =
        Thrown_promise (suspender (cells (world s) ! comments (resource s))) \<or>
     fst (read (comments (resource s)) (world s)) =
        Returned (comments_for (bundle_id (resource s)))) \<and>
    (fst (read (responses (resource s)) (world s)) =
        Thrown_promise (suspender (cells (world s) ! responses (resource s))) \<or>
     fst (read (responses (resource s)) (world s)) =
        Returned (responses_for (bundle_id (resource s))))"
proof -
  from assms obtain p1 q1 d1 p2 q2 d2 p3 q3 d3 where
    w1: "wired (world s) (reviewer (resource s)) p1 q1 d1 (find_reviewer (bundle_id (resource s)))"
    and w2: "wired (world s) (comments (resource s)) p2 q2 d2 (comments_for (bundle_id (resource s)))"
    and w3: "wired (world s) (responses (resource s)) p3 q3 d3 (responses_for (bundle_id (resource s)))"
    unfolding app_inv_def by blast
  from wired_never_error [OF w1] wired_never_error [OF w2] wired_never_error [OF w3] w1 w2 w3
  show ?thesis by (simp add: wired_def)
qed


lemma resource_step: "e \<noteq> Click \<Longrightarrow> resource (app_step e s) = resource s"
  by (cases e) simp_all

lemma click_id:
  "bundle_id (resource (app_step Click s)) = getNextId (bundle_id (resource s))"
  by (simp add: handleClick_eq)

text \<open>
  C6. In every state the controller can reach, the one state variable \<^verbatim>\<open>resource\<close> holds
  the key together with the three slots built for that key: each slot is a closure of the
  world, and \<^verbatim>\<open>read()\<close> on it either throws its suspender or returns the data of the
  current key (a reviewer whose id is the key, comments and responses whose
  \<^verbatim>\<open>reviewerId\<close> is the key), never data of another key. A click replaces world and
  \<^verbatim>\<open>resource\<close> by what \<^verbatim>\<open>fetchCodeReviewerData\<close> returns for the next id: the new
  key and three closures that did not exist before; no other event changes \<^verbatim>\<open>resource\<close>.
\<close>

theorem atomic_key_bundle_swap:
  "(let s = run es initial_app; b = resource s; w = world s; s' = app_step Click s
    in reviewer b < length (cells w) \<and> comments b < length (cells w) \<and>
       responses b < length (cells w) \<and>
       (fst (read (reviewer b) w) = Thrown_promise (suspender (cells w ! reviewer b)) \<or>
        fst (read (reviewer b) w) = Returned (find_reviewer (bundle_id b))) \<and>
       (fst (read (comments b) w) = Thrown_promise (suspender (cells w ! comments b)) \<or>
        fst (read (comments b) w) = Returned (comments_for (bundle_id b))) \<and>
       (fst (read (responses b) w) = Thrown_promise (suspender (cells w ! responses b)) \<or>
        fst (read (responses b) w) = Returned (responses_for (bundle_id b))) \<and>
       (\<forall>r. fst (read (reviewer b) w) = Returned (Reviewer r) \<longrightarrow> reviewer_id r = bundle_id b) \<and>
       (\<forall>cs. fst (read (comments b) w) = Returned (Comments cs) \<longrightarrow>
          (\<forall>c \<in> set cs. reviewerId c = bundle_id b)) \<and>
       (\<forall>cs. fst (read (responses b) w) = Returned (Comments cs) \<longrightarrow>
          (\<forall>c \<in> set cs. reviewerId c = bundle_id b)) \<and>
       (resource s', world s') = fetchCodeReviewerData (getNextId (bundle_id b)) w \<and>
       bundle_id (resource s') = getNextId (bundle_id b) \<and>
       reviewer (resource s') = length (cells w) \<and>
       comments (resource s') = Suc (length (cells w)) \<and>
       responses (resource s') = Suc (Suc (length (cells w))) \<and>
       (\<forall>e. e \<noteq> Click \<longrightarrow> resource (app_step e s) = resource s))"
proof -
  let ?s = "run es initial_app"
  let ?b = "resource ?s"
  let ?w = "world ?s"
  note r = app_inv_reads [OF app_inv_run [OF app_inv_initial, of es]]
  have d1: "\<forall>r. fst (read (reviewer ?b) ?w) = Returned (Reviewer r) \<longrightarrow> reviewer_id r = bundle_id ?b"
    using r find_reviewer_id [of "bundle_id ?b"] by auto
  have d2: "\<forall>cs. fst (read (comments ?b) ?w) = Returned (Comments cs) \<longrightarrow>
          (\<forall>c \<in> set cs. reviewerId c = bundle_id ?b)"
    using r comments_for_id [of "bundle_id ?b"] by auto
  have d3: "\<forall>cs. fst (read (responses ?b) ?w) = Returned (Comments cs) \<longrightarrow>
          (\<forall>c \<in> set cs. reviewerId c = bundle_id ?b)"
    using r responses_for_id [of "bundle_id ?b"] by auto
  have c: "(resource (app_step Click ?s), world (app_step Click ?s)) =
      fetchCodeReviewerData (getNextId (bundle_id ?b)) ?w"
    by (simp add: handleClick_eq del: fetch_bundle)
  have f: "bundle_id (resource (app_step Click ?s)) = getNextId (bundle_id ?b)"
    "reviewer (resource (app_step Click ?s)) = length (cells ?w)"
    "comments (resource (app_step Click ?s)) = Suc (length (cells ?w))"
    "responses (resource (app_step Click ?s)) = Suc (Suc (length (cells ?w)))"
    by (simp_all add: handleClick_eq)
  have n: "\<forall>e. e \<noteq> Click \<longrightarrow> resource (app_step e ?s) = resource ?s"
    using resource_step [of _ ?s] by blast
  from r d1 d2 d3 c f n show ?thesis
    unfolding Let_def by blast
qed

lemma id_run:
  "bundle_id (resource (run es s)) = (getNextId ^^ count_list es Click) (bundle_id (resource s))"
proof (induction es arbitrary: s)
  case Nil
  then show ?case by simp
next
  case (Cons e es)
  show ?case
  proof (cases "e = Click")
    case True
    with Cons [of "app_step Click s"] show ?thesis
      by (simp add: click_id funpow_swap1 del: app_step.simps)
  next
    case False
    with Cons [of "app_step e s"] resource_step [OF False, of s] show ?thesis
      by (simp del: app_step.simps)
  qed
qed

lemma getNextId_cycle: "(getNextId ^^ n) 3 = [3, 5, 7] ! (n mod 3)"
proof (induction n)
  case 0
  then show ?case by simp
next
  case (Suc n)
  have "n mod 3 = 0 \<or> n mod 3 = 1 \<or> n mod 3 = 2" by arith
  with Suc show ?case by (auto simp: mod_Suc getNextId_def)
qed

lemma initial_id: "bundle_id (resource initial_app) = 3"
  by (simp add: initial_app_def initialResource_def)

text \<open>
  C10. \<^verbatim>\<open>getNextId\<close> maps 3 to 5, 5 to 7 and every other number to 3. The controller
  starts with the bundle of key 3; a click moves the key to \<^verbatim>\<open>getNextId\<close> of the current
  key and no other event changes the key; so after any sequence of events the key is 3, 5
  or 7, namely the entry of the cycle 3, 5, 7 at the number of clicks so far modulo 3.
\<close>

theorem key_cycles:
  "getNextId 3 = 5 \<and> getNextId 5 = 7 \<and> (\<forall>i. i \<noteq> 3 \<longrightarrow> i \<noteq> 5 \<longrightarrow> getNextId i = 3) \<and>
   bundle_id (resource initial_app) = 3 \<and>
   (bundle_id (resource (run es initial_app)) = 3 \<or>
    bundle_id (resource (run es initial_app)) = 5 \<or>
    bundle_id (resource (run es initial_app)) = 7) \<and>
   bundle_id (resource (run es initial_app)) = [3, 5, 7] ! (count_list es Click mod 3) \<and>
   bundle_id (resource (app_step Click (run es initial_app))) =
     getNextId (bundle_id (resource (run es initial_app))) \<and>
   (\<forall>e. e \<noteq> Click \<longrightarrow>
      bundle_id (resource (app_step e (run es initial_app))) =
        bundle_id (resource (run es initial_app)))"
proof -
  have g: "getNextId 3 = 5" "getNextId 5 = 7" "\<forall>i. i \<noteq> 3 \<longrightarrow> i \<noteq> 5 \<longrightarrow> getNextId i = 3"
    by (simp_all add: getNextId_def)
  have k: "bundle_id (resource (run es initial_app)) = [3, 5, 7] ! (count_list es Click mod 3)"
    by (simp add: id_run initial_id getNextId_cycle)
  have "count_list es Click mod 3 = 0 \<or> count_list es Click mod 3 = 1 \<or>
      count_list es Click mod 3 = 2" by arith
  with k have r: "bundle_id (resource (run es initial_app)) = 3 \<or>
    bundle_id (resource (run es initial_app)) = 5 \<or>
    bundle_id (resource (run es initial_app)) = 7" by auto
  have n: "\<forall>e. e \<noteq> Click \<longrightarrow>
      bundle_id (resource (app_step e (run es initial_app))) =
        bundle_id (resource (run es initial_app))"
    using resource_step [of _ "run es initial_app"] by simp
  from g k r initial_id click_id [of "run es initial_app"] n
  show ?thesis by blast
qed

theorem key_cycles_witness:
  "getNextId 4 = 3 \<and>
   bundle_id (resource (run [Click, Pass, Click, Click, Click] initial_app)) = 5 \<and>
   bundle_id (resource (app_step Click (run [Click, Pass, Click, Click, Click] initial_app))) = 7 \<and>
   bundle_id (resource (app_step Job (run [Click, Pass, Click, Click, Click] initial_app))) = 5"
proof -
  have c: "count_list [Click, Pass, Click, Click, Click] Click mod 3 = 1" by simp
  have n: "Job \<noteq> Click" "(4::int) \<noteq> 3" "(4::int) \<noteq> 5" by simp_all
  from key_cycles [of "[Click, Pass, Click, Click, Click]"] c n
  show ?thesis by (simp del: run.simps app_step.simps add: getNextId_def)
qed


lemma fetch_promises_length [simp]:
  "length (promises (snd (fetchCodeReviewerData i w))) = length (promises w) + 6"
  by (simp add: fetchCodeReviewerData_eq)

lemma empty_fields [simp]: "cells empty_world = []" "promises empty_world = []"
  "clock empty_world = 0"
  by (simp_all add: empty_world_def)

lemma initial_fields:
  "resource initial_app = \<lparr>bundle_id = 3, reviewer = 0, comments = 1, responses = 2\<rparr>"
  "world initial_app = snd (fetchCodeReviewerData 3 empty_world)"
  by (simp_all add: initial_app_def initialResource_def)

theorem atomic_key_bundle_swap_witness:
  "resource (run [Click] initial_app) =
     \<lparr>bundle_id = 5, reviewer = 3, comments = 4, responses = 5\<rparr> \<and>
   fst (read 3 (world (run [Click] initial_app))) = Thrown_promise 9 \<and>
   length (cells (world (run [Click] initial_app))) = 6 \<and>
   resource (app_step Click (run [Click] initial_app)) =
     \<lparr>bundle_id = 7, reviewer = 6, comments = 7, responses = 8\<rparr> \<and>
   resource (app_step Pass (run [Click] initial_app)) = resource (run [Click] initial_app)"
proof -
  have r: "resource (run [Click] initial_app) =
     \<lparr>bundle_id = 5, reviewer = 3, comments = 4, responses = 5\<rparr>"
    by (simp add: handleClick_eq initial_fields getNextId_def fetch_cells)
  have l: "length (cells (world (run [Click] initial_app))) = 6"
    by (simp add: handleClick_eq initial_fields fetch_cells)
  have t: "fst (read 3 (world (run [Click] initial_app))) = Thrown_promise 9"
    by (simp add: handleClick_eq initial_fields fetch_cells read_by_status nth_append)
  have n: "Pass \<noteq> Click" by simp
  have g: "getNextId 5 = 7" by (simp add: getNextId_def)
  from atomic_key_bundle_swap [of "[Click]"] r l t n g
  show ?thesis unfolding Let_def
    by (auto simp del: run.simps app_step.simps simp add: ReviewerResource.equality)
qed


section \<open>Proofs: what starts an operation\<close>

text \<open>The number of timers waiting to resolve promise \<open>p\<close>.\<close>

definition running :: "world \<Rightarrow> nat \<Rightarrow> nat" where
  "running w p = length (filter (\<lambda>t. target (snd t) = p) (timers w))"

lemma run_callback_timers [simp]: "timers (run_callback cb w) = timers w"
  by (cases cb) (simp_all add: resolve_def)

lemma microtask_timers [simp]: "timers (microtask w) = timers w"
  by (cases "microtasks w") (simp_all add: microtask_def run_job_timers)

lemma fetch_timers:
  "timers (snd (fetchCodeReviewerData i w)) = timers w @
     [(clock w + 300, Fetched_reviewer (length (promises w)) i),
      (clock w + 800, Fetched_comments (Suc (length (promises w))) i),
      (clock w + 1500, Fetched_responses (Suc (Suc (length (promises w)))) i)]"
  by (simp add: fetchCodeReviewerData_eq started_def fetchReviewer_eq
      fetchCommentsForReviewer_eq fetchUsersResponseToReviewer_eq)

lemma timers_step_le:
  "\<forall>i. a \<noteq> Fetch i \<Longrightarrow> length (timers (step a w)) \<le> length (timers w)"
  by (cases a) (simp_all add: fire_def resolve_def reject_def)

lemma filter_remove_nth_le:
  "length (filter P (take k xs @ drop (Suc k) xs)) \<le> length (filter P xs)"
proof (cases "k < length xs")
  case True
  then have "xs = take k xs @ xs ! k # drop (Suc k) xs" by (rule id_take_nth_drop)
  then have "length (filter P xs) =
      length (filter P (take k xs @ xs ! k # drop (Suc k) xs))" by simp
  then show ?thesis by simp
next
  case False
  then show ?thesis by simp
qed

lemma running_step:
  assumes i: "inv w" and p: "p < length (promises w)"
  shows "running (step a w) p \<le> running w p"
proof (cases a)
  case (Fire k)
  with filter_remove_nth_le [of "\<lambda>t. target (snd t) = p" k "timers w"]
  show ?thesis by (simp add: running_def fire_def)
next
  case (Fetch j)
  with p show ?thesis by (simp add: running_def fetch_timers)
qed (simp_all add: running_def resolve_def reject_def)

lemma promises_step: "length (promises w) \<le> length (promises (step a w))"
proof (cases a)
  case (Fire k)
  have "length (promises (run_callback cb w')) = length (promises w')" for cb w'
    by (cases cb) (simp_all add: resolve_def)
  with Fire show ?thesis by (simp add: fire_def)
next
  case Microtask
  have "length (promises (run_job j w')) = length (promises w')" for j w'
    by (cases j)
       (simp add: run_job_def resolve_def on_success_def on_error_def split: pstate.splits)
  with Microtask show ?thesis by (cases "microtasks w") (simp_all add: microtask_def)
qed (simp_all add: resolve_def reject_def)

lemma running_exec:
  assumes "inv w" and "p < length (promises w)"
  shows "running (exec as w) p \<le> running w p"
  using assms
proof (induction as arbitrary: w)
  case Nil
  then show ?case by simp
next
  case (Cons a as)
  from promises_step [of w a] Cons.prems(2) have "p < length (promises (step a w))" by simp
  from Cons.IH [OF inv_step [OF Cons.prems(1)] this] running_step [OF Cons.prems, of a]
  show ?case by simp
qed

lemma promises_exec: "length (promises w) \<le> length (promises (exec as w))"
proof (induction as arbitrary: w)
  case Nil
  then show ?case by simp
next
  case (Cons a as)
  from promises_step [of w a] Cons [of "step a w"] show ?case by simp
qed

lemma bundle_running:
  assumes i: "inv w"
  shows "running (snd (fetchCodeReviewerData j w)) (length (promises w)) = 1"
    and "running (snd (fetchCodeReviewerData j w)) (Suc (length (promises w))) = 1"
    and "running (snd (fetchCodeReviewerData j w)) (Suc (Suc (length (promises w)))) = 1"
proof -
  from i have "\<forall>t \<in> set (timers w). target (snd t) < length (promises w)"
    by (simp add: inv_def bounded_def)
  then have "filter (\<lambda>t. target (snd t) = length (promises w) + k) (timers w) = []" for k
    by (auto simp: filter_empty_conv)
  from this [of 0] this [of 1] this [of 2]
  show "running (snd (fetchCodeReviewerData j w)) (length (promises w)) = 1"
    and "running (snd (fetchCodeReviewerData j w)) (Suc (length (promises w))) = 1"
    and "running (snd (fetchCodeReviewerData j w)) (Suc (Suc (length (promises w)))) = 1"
    by (simp_all add: running_def fetch_timers)
qed

lemma subscribed_once:
  assumes i: "inv w" and c: "c < length (cells w)"
  shows "subscribed (exec as w) (wrapped (cells w ! c)) c = 1"
proof -
  from exec_cells [OF i c, of as]
  have c': "c < length (cells (exec as w))"
    and wr: "wrapped (cells (exec as w) ! c) = wrapped (cells w ! c)" by simp_all
  from i c have "wrapped (cells w ! c) < length (promises w)" by (simp add: inv_def bounded_def)
  with promises_exec [of w as] have p: "wrapped (cells w ! c) < length (promises (exec as w))"
    by simp
  from inv_exec [OF i, of as] c' have "cell_ok (exec as w) c" by (simp add: inv_def)
  from cell_ok_sub [OF this p] wr show ?thesis by simp
qed


lemma wrap_subscribes_once:
  assumes i: "inv w" and p: "p < length (promises w)"
  shows "subscribed (snd (wrapPromise p w)) p (length (cells w)) = 1"
proof -
  have "inv (snd (wrapPromise p w))" using i p by (rule inv_wrap)
  from subscribed_once [OF this, of "length (cells w)" "[]"] show ?thesis by simp
qed

text \<open>
  C2. Wrap any promise \<open>p\<close> of any reachable world. \<^verbatim>\<open>wrapPromise\<close> itself subscribes
  to \<open>p\<close> once (one \<^verbatim>\<open>then\<close>), sets no timer and logs nothing; in every world reached
  afterwards the resource's handlers are registered exactly once on \<open>p\<close> and on no other
  promise. A \<^verbatim>\<open>read()\<close> leaves the world exactly as it is, so any number of reads starts
  or subscribes nothing, and no step other than building a bundle ever adds a timer.
  \<^verbatim>\<open>fetchCodeReviewerData\<close> sets exactly three timers at construction, one for the
  promise of each slot; whatever happens afterwards, no slot's promise ever has more than
  that one timer, and each slot stays subscribed exactly once to its own promise.
\<close>

theorem single_fire:
  "p < length (promises (exec as empty_world)) \<Longrightarrow>
   (let w0 = exec as empty_world;
        c = fst (wrapPromise p w0);
        w1 = snd (wrapPromise p w0);
        w = exec bs w1;
        b = fst (fetchCodeReviewerData i w0);
        u1 = snd (fetchCodeReviewerData i w0);
        u = exec bs u1
    in subscribed w1 p c = 1 \<and> timers w1 = timers w0 \<and> console w1 = console w0 \<and>
       (\<forall>p' < length (promises w). subscribed w p' c = (if p' = p then 1 else 0)) \<and>
       step (Read c') w = w \<and> exec (replicate n (Read c')) w = w \<and>
       ((\<forall>j. a \<noteq> Fetch j) \<longrightarrow> length (timers (step a w)) \<le> length (timers w)) \<and>
       timers u1 = timers w0 @
         [(clock w0 + 300, Fetched_reviewer (wrapped (cells u1 ! reviewer b)) i),
          (clock w0 + 800, Fetched_comments (wrapped (cells u1 ! comments b)) i),
          (clock w0 + 1500, Fetched_responses (wrapped (cells u1 ! responses b)) i)] \<and>
       running u1 (wrapped (cells u1 ! reviewer b)) = 1 \<and>
       running u1 (wrapped (cells u1 ! comments b)) = 1 \<and>
       running u1 (wrapped (cells u1 ! responses b)) = 1 \<and>
       running u (wrapped (cells u1 ! reviewer b)) \<le> 1 \<and>
       running u (wrapped (cells u1 ! comments b)) \<le> 1 \<and>
       running u (wrapped (cells u1 ! responses b)) \<le> 1 \<and>
       subscribed u (wrapped (cells u1 ! reviewer b)) (reviewer b) = 1 \<and>
       subscribed u (wrapped (cells u1 ! comments b)) (comments b) = 1 \<and>
       subscribed u (wrapped (cells u1 ! responses b)) (responses b) = 1)"
proof -
  assume p: "p < length (promises (exec as empty_world))"
  let ?u = "exec as empty_world"
  let ?c = "length (cells ?u)"
  let ?n = "length (promises ?u)"
  let ?v = "snd (wrapPromise p ?u)"
  let ?w = "exec bs ?v"
  let ?x = "snd (fetchCodeReviewerData i ?u)"
  let ?y = "exec bs ?x"
  note i = inv_reachable [of as]
  have 1: "subscribed ?v p ?c = 1" using wrap_subscribes_once [OF i p] .
  have 2: "timers ?v = timers ?u" "console ?v = console ?u" by simp_all
  from wrapped_cell [OF p, of bs]
  have cw: "?c < length (cells ?w)" and iw: "inv ?w" and wr: "wrapped (cells ?w ! ?c) = p"
    by simp_all
  from iw cw have ok: "cell_ok ?w ?c" by (simp add: inv_def)
  have 3: "\<forall>p' < length (promises ?w). subscribed ?w p' ?c = (if p' = p then 1 else 0)"
    using cell_ok_sub [OF ok] wr by simp
  have 4: "step (Read c') ?w = ?w" "exec (replicate n (Read c')) ?w = ?w"
    by (simp_all add: exec_reads)
  have 5: "(\<forall>j. a \<noteq> Fetch j) \<longrightarrow> length (timers (step a ?w)) \<le> length (timers ?w)"
    using timers_step_le [of a ?w] by blast
  have ix: "inv ?x" using i by (rule inv_fetchCodeReviewerData)
  have px: "?n < length (promises ?x)" "Suc ?n < length (promises ?x)"
    "Suc (Suc ?n) < length (promises ?x)" by simp_all
  have cx: "?c < length (cells ?x)" "Suc ?c < length (cells ?x)"
    "Suc (Suc ?c) < length (cells ?x)" by (simp_all add: fetch_cells)
  note br = bundle_running [OF i, of i]
  have 7: "running ?y ?n \<le> 1" "running ?y (Suc ?n) \<le> 1" "running ?y (Suc (Suc ?n)) \<le> 1"
    using running_exec [OF ix px(1), of bs] running_exec [OF ix px(2), of bs]
      running_exec [OF ix px(3), of bs] br by simp_all
  have 8: "subscribed ?y ?n ?c = 1" "subscribed ?y (Suc ?n) (Suc ?c) = 1"
    "subscribed ?y (Suc (Suc ?n)) (Suc (Suc ?c)) = 1"
    using subscribed_once [OF ix cx(1), of bs] subscribed_once [OF ix cx(2), of bs]
      subscribed_once [OF ix cx(3), of bs]
    by (simp_all add: bundle_promises)
  show ?thesis
    unfolding Let_def wrap_fst fetch_bundle ReviewerResource.simps bundle_promises
    using 1 2 3 4 5 br 7 8 fetch_timers [of i ?u]
    by (simp del: step.simps)
qed

theorem single_fire_witness:
  "0 < length (promises (exec [Create] empty_world)) \<and>
   subscribed (snd (wrapPromise 0 (exec [Create] empty_world))) 0 0 = 1 \<and>
   step (Read 0) (exec [Resolve 0 (Comments []), Microtask, Tick]
       (snd (wrapPromise 0 (exec [Create] empty_world)))) =
     exec [Resolve 0 (Comments []), Microtask, Tick]
       (snd (wrapPromise 0 (exec [Create] empty_world))) \<and>
   subscribed (exec [Resolve 0 (Comments []), Microtask, Tick]
       (snd (wrapPromise 0 (exec [Create] empty_world)))) 0 0 = 1 \<and>
   running (snd (fetchCodeReviewerData 3 (exec [Create] empty_world))) 1 = 1 \<and>
   running (exec [Resolve 0 (Comments []), Microtask, Tick]
       (snd (fetchCodeReviewerData 3 (exec [Create] empty_world)))) 1 \<le> 1"
proof -
  have h: "0 < length (promises (exec [Create] empty_world))"
    unfolding run_created by simp
  have l: "length (promises (exec [Create] empty_world)) = 1"
    "length (cells (exec [Create] empty_world)) = 0"
    unfolding run_created by simp_all
  have g: "0 < length (promises (exec [Resolve 0 (Comments []), Microtask, Tick]
       (snd (wrapPromise 0 (exec [Create] empty_world)))))"
    using promises_exec [of "snd (wrapPromise 0 (exec [Create] empty_world))"
        "[Resolve 0 (Comments []), Microtask, Tick]"]
    by (simp del: exec.simps length_greater_0_conv)
  from single_fire [OF h, where bs = "[Resolve 0 (Comments []), Microtask, Tick]" and c' = 0
      and n = 0 and a = Tick and i = 3] h l g
  show ?thesis unfolding Let_def
    by (simp del: exec.simps step.simps add: fetch_cells nth_append)
qed


section \<open>Proofs: reads after the outcome\<close>

lemma settled_after_checkpoint:
  assumes i: "inv w" and c: "c < length (cells w)"
    and s: "state (promises w ! wrapped (cells w ! c)) \<noteq> Pending"
  shows "c < length (cells (drain w)) \<and>
    status (cells (drain w) ! c) = status_of (state (promises w ! wrapped (cells w ! c))) \<and>
    result (cells (drain w) ! c) = value_of (state (promises w ! wrapped (cells w ! c)))"
proof -
  let ?p = "wrapped (cells w ! c)"
  from i c have p: "?p < length (promises w)" by (simp add: inv_def bounded_def)
  from drain_exec [of w] obtain n where n: "drain w = exec (replicate n Microtask) w" by blast
  from exec_state [OF p s, of "replicate n Microtask"] n
  have st: "state (promises (drain w) ! ?p) = state (promises w ! ?p)" by simp
  from drain_cells [OF i c]
  have c': "c < length (cells (drain w))" and wr: "wrapped (cells (drain w) ! c) = ?p"
    by simp_all
  from mirror_after_checkpoint [OF i c'] s show ?thesis
    unfolding wr st using c' by simp
qed

lemma read_settled:
  "status (cells w ! c) = status_of s \<Longrightarrow> result (cells w ! c) = value_of s \<Longrightarrow>
   fst (read c w) =
     (case s of Pending \<Rightarrow> Thrown_promise (suspender (cells w ! c))
      | Fulfilled v \<Rightarrow> Returned v | Rejected e \<Rightarrow> Thrown e)"
  by (cases s) (simp_all add: read_by_status)

text \<open>
  C4. Take any closure of any reachable world. If its \<^verbatim>\<open>status\<close> is no longer
  \<^verbatim>\<open>"pending"\<close>, \<^verbatim>\<open>read()\<close> returns the stored result (after fulfilment) or throws
  it (after rejection), and does the same in every world reached from there, whatever
  happens in between. If its wrapped promise has settled, the same holds from the moment
  the reaction jobs of that task have run: every \<^verbatim>\<open>read()\<close> returns the fulfilment
  value, or throws the rejection reason. A call leaves the world exactly as it found it,
  so any number of calls in a row changes nothing (no timer is set, no promise created or
  subscribed).
\<close>

theorem read_idempotent:
  "c < length (cells (exec as empty_world)) \<Longrightarrow>
   (let w = exec as empty_world; k = cells w ! c; s = state (promises w ! wrapped k);
        w' = drain w
    in (status k \<noteq> ''pending'' \<longrightarrow>
          fst (read c (exec bs w)) = fst (read c w) \<and>
          (status k = ''success'' \<and> fst (read c w) = Returned (result k) \<and>
             s = Fulfilled (result k) \<or>
           status k = ''error'' \<and> fst (read c w) = Thrown (result k) \<and>
             s = Rejected (result k))) \<and>
       (s \<noteq> Pending \<longrightarrow>
          fst (read c (exec bs w')) = fst (read c w') \<and>
          (\<forall>v. s = Fulfilled v \<longrightarrow> fst (read c w') = Returned v) \<and>
          (\<forall>e. s = Rejected e \<longrightarrow> fst (read c w') = Thrown e)) \<and>
       snd (read c (exec bs w)) = exec bs w \<and>
       exec (replicate n (Read c)) (exec bs w) = exec bs w)"
proof -
  assume c: "c < length (cells (exec as empty_world))"
  let ?w = "exec as empty_world"
  let ?k = "cells ?w ! c"
  let ?s = "state (promises ?w ! wrapped ?k)"
  note i = inv_reachable [of as]
  have 1: "fst (read c (exec bs ?w)) = fst (read c ?w) \<and>
          (status ?k = ''success'' \<and> fst (read c ?w) = Returned (result ?k) \<and>
             ?s = Fulfilled (result ?k) \<or>
           status ?k = ''error'' \<and> fst (read c ?w) = Thrown (result ?k) \<and>
             ?s = Rejected (result ?k))"
    if s: "status ?k \<noteq> ''pending''"
  proof -
    from exec_cells [OF i c, of bs] s
    have "cells (exec bs ?w) ! c = ?k" by simp
    then have "fst (read c (exec bs ?w)) = fst (read c ?w)"
      by (simp add: read_def Let_def)
    moreover from cell_ok_status [OF reachable_cell [OF c]] s
    have "status ?k = ''success'' \<and> fst (read c ?w) = Returned (result ?k) \<and>
             ?s = Fulfilled (result ?k) \<or>
           status ?k = ''error'' \<and> fst (read c ?w) = Thrown (result ?k) \<and>
             ?s = Rejected (result ?k)"
      by (auto simp: read_by_status)
    ultimately show ?thesis by simp
  qed
  have 2: "fst (read c (exec bs (drain ?w))) = fst (read c (drain ?w)) \<and>
          (\<forall>v. ?s = Fulfilled v \<longrightarrow> fst (read c (drain ?w)) = Returned v) \<and>
          (\<forall>e. ?s = Rejected e \<longrightarrow> fst (read c (drain ?w)) = Thrown e)"
    if s: "?s \<noteq> Pending"
  proof -
    from settled_after_checkpoint [OF i c s]
    have c': "c < length (cells (drain ?w))"
      and st: "status (cells (drain ?w) ! c) = status_of ?s"
      and re: "result (cells (drain ?w) ! c) = value_of ?s"
      by simp_all
    from st s have np: "status (cells (drain ?w) ! c) \<noteq> ''pending''" by simp
    from exec_cells [OF inv_drain [OF i] c', of bs] np
    have "cells (exec bs (drain ?w)) ! c = cells (drain ?w) ! c" by simp
    then have "fst (read c (exec bs (drain ?w))) = fst (read c (drain ?w))"
      by (simp add: read_def Let_def)
    with read_settled [OF st re] show ?thesis by auto
  qed
  from 1 2 show ?thesis by (simp add: Let_def exec_reads)
qed

theorem read_idempotent_witness:
  "0 < length (cells (exec [Create, Wrap 0, Resolve 0 (Comments [])] empty_world)) \<and>
   state (promises (exec [Create, Wrap 0, Resolve 0 (Comments [])] empty_world) ! 0) =
     Fulfilled (Comments []) \<and>
   fst (read 0 (drain (exec [Create, Wrap 0, Resolve 0 (Comments [])] empty_world))) =
     Returned (Comments []) \<and>
   fst (read 0 (exec [Read 0, Tick, Reject 0 (Failure ''late''), Microtask, Read 0]
         (drain (exec [Create, Wrap 0, Resolve 0 (Comments [])] empty_world)))) =
     Returned (Comments []) \<and>
   exec (replicate 5 (Read 0))
       (exec [Read 0, Tick] (exec [Create, Wrap 0, Resolve 0 (Comments [])] empty_world)) =
     exec [Read 0, Tick] (exec [Create, Wrap 0, Resolve 0 (Comments [])] empty_world)"
proof -
  let ?w = "exec [Create, Wrap 0, Resolve 0 (Comments [])] empty_world"
  have h: "0 < length (cells ?w)" unfolding run_resolved by simp
  have s: "wrapped (cells ?w ! 0) = 0" "state (promises ?w ! 0) = Fulfilled (Comments [])"
    unfolding run_resolved by simp_all
  from read_idempotent [OF h,
      of "[Read 0, Tick, Reject 0 (Failure ''late''), Microtask, Read 0]" 5]
    read_idempotent [OF h, of "[Read 0, Tick]" 5] h s
  show ?thesis unfolding Let_def by (simp del: exec.simps)
qed

end
